theory Spec2Isabelle
  imports Complex_Main "HOL-Library.AList" "HOL-Library.Multiset" "HOL-Library.Log_Nat"
begin

section \<open>JavaScript values used by the sources\<close>

text \<open>
  A plain JavaScript object used as a dictionary is an association list of its own
  properties in insertion order; \<open>map_of\<close> reads an own property and \<open>obj[k] = v\<close> writes
  with \<open>AList.update\<close> (in place when the key exists, appended otherwise). A property that
  may be absent is an \<open>option\<close>, \<open>None\<close> standing for \<open>undefined\<close>.
\<close>

type_synonym 'v js_object = "(string \<times> 'v) list"

text \<open>
  A read \<open>obj[k]\<close> of an object literal also finds the properties that the object
  inherits from \<open>Object.prototype\<close>. Their values are built-in functions and, for
  \<open>__proto__\<close>, the prototype object itself: all of them truthy, none with a property
  \<open>uniqueQuestions\<close>. \<open>absent obj k\<close> is the test \<open>!obj[k]\<close> on an object whose own
  values are objects. The built-in objects are taken as the realm creates them: properties
  that a run adds to them are not part of the state.
\<close>

definition inheritedKeys :: "string list" where
  "inheritedKeys =
     [''constructor'', ''__defineGetter__'', ''__defineSetter__'', ''hasOwnProperty'',
      ''__lookupGetter__'', ''__lookupSetter__'', ''isPrototypeOf'', ''propertyIsEnumerable'',
      ''toString'', ''valueOf'', ''__proto__'', ''toLocaleString'']"

definition inherited :: "string \<Rightarrow> bool" where
  "inherited k = (k \<in> set inheritedKeys)"

definition absent :: "'v js_object \<Rightarrow> string \<Rightarrow> bool" where
  "absent obj k = (map_of obj k = None \<and> \<not> inherited k)"

text \<open>Truthiness of a string-or-undefined value, and the operator \<open>a || b\<close> on such values.\<close>

definition truthy :: "string option \<Rightarrow> bool" where
  "truthy v = (case v of None \<Rightarrow> False | Some s \<Rightarrow> s \<noteq> [])"

definition js_or :: "string option \<Rightarrow> string option \<Rightarrow> string option" where
  "js_or a b = (if truthy a then a else b)"

text \<open>Truthiness of \<open>a || b\<close> for two boolean-or-undefined flags.\<close>

definition flag_or :: "bool option \<Rightarrow> bool option \<Rightarrow> bool" where
  "flag_or a b = (a = Some True \<or> b = Some True)"

text \<open>Conversion of a value to a property key: \<open>undefined\<close> becomes the key "undefined".\<close>

definition js_key :: "string option \<Rightarrow> string" where
  "js_key v = (case v of None \<Rightarrow> ''undefined'' | Some s \<Rightarrow> s)"

text \<open>
  Own properties are enumerated (\<open>Object.keys\<close>, \<open>Object.values\<close>) with the array-index
  keys first, in ascending numeric order, then the other keys in insertion order. An array
  index is a canonical decimal numeral of at most \<open>2^32 - 2\<close>.
\<close>

definition digits_value :: "string \<Rightarrow> nat" where
  "digits_value s = foldl (\<lambda>n c. 10 * n + (of_char c - 48)) 0 s"

definition array_index :: "string \<Rightarrow> nat option" where
  "array_index s =
     (if s \<noteq> [] \<and> list_all (\<lambda>c. c \<in> set ''0123456789'') s
         \<and> (s = ''0'' \<or> hd s \<noteq> CHR ''0'') \<and> digits_value s \<le> 4294967294
      then Some (digits_value s) else None)"

definition ownEntries :: "'v js_object \<Rightarrow> 'v js_object" where
  "ownEntries obj =
     sort_key (\<lambda>kv. the (array_index (fst kv))) (filter (\<lambda>kv. array_index (fst kv) \<noteq> None) obj)
     @ filter (\<lambda>kv. array_index (fst kv) = None) obj"

text \<open>\<open>Array.prototype.findIndex\<close>; \<open>None\<close> is the result \<open>-1\<close>.\<close>

fun findIndex :: "('a \<Rightarrow> bool) \<Rightarrow> 'a list \<Rightarrow> nat option" where
  "findIndex p [] = None"
| "findIndex p (x # xs) = (if p x then Some 0 else map_option Suc (findIndex p xs))"

subsection \<open>Numbers\<close>

text \<open>
  A number is an IEEE 754 double, modelled as the rational it denotes. \<open>fl x\<close> is the
  double nearest to \<open>x\<close>, the one with the even significand when two are equally near:
  \<open>expo x\<close> is the binary exponent of a positive \<open>x\<close> and the significand has 53 bits.
  Every arithmetic operation of the sources returns \<open>fl\<close> of the exact result, and
  \<open>parseFloat\<close> of a decimal numeral is \<open>fl\<close> of its value. The exponent range is not
  bounded: overflow and subnormal numbers do not occur for the counts, quotients and sums
  below. Counters are natural numbers (integers below \<open>2^53\<close> are doubles).
\<close>

definition round_even :: "rat \<Rightarrow> int" where
  "round_even y =
     (let n = \<lfloor>y\<rfloor>; d = y - of_int n
      in if d < 1 / 2 then n else if 1 / 2 < d then n + 1 else if even n then n else n + 1)"

definition expo :: "rat \<Rightarrow> int" where
  "expo x =
     (let p = fst (quotient_of x); q = snd (quotient_of x); d = bitlen p - bitlen q
      in if of_int q * 2 powi d \<le> (of_int p :: rat) then d else d - 1)"

definition fl :: "rat \<Rightarrow> rat" where
  "fl x =
     (if x = 0 then 0
      else if 0 < x then of_int (round_even (x * 2 powi (52 - expo x))) * 2 powi (expo x - 52)
      else - (of_int (round_even (- x * 2 powi (52 - expo (- x)))) * 2 powi (expo (- x) - 52)))"

text \<open>
  \<open>Number.prototype.toFixed(1)\<close> on a non-negative double, as the number that the
  resulting string denotes: the multiple of one tenth nearest to the exact value of the
  double, the larger one when two are equally near. A property holding such a string is a
  \<open>rat\<close> holding this number.
\<close>

definition toFixed1 :: "rat \<Rightarrow> rat" where
  "toFixed1 x = of_int \<lfloor>x * 10 + 1 / 2\<rfloor> / 10"

text \<open>\<open>(correct / total) * 100\<close> on two counters: two operations, each rounded.\<close>

definition jsPercent :: "nat \<Rightarrow> nat \<Rightarrow> rat" where
  "jsPercent c t = fl (fl (of_nat c / of_nat t) * 100)"

section \<open>Data model\<close>

text \<open>A catalog question (\<open>quiz/questions.json\<close>).\<close>

record quiz_question =
  questionID :: string
  question :: string
  category :: string
  authored_by :: "string option"
  choice :: "string list"
  answer :: "string option"

text \<open>
  A stored answer record. The fields that the sources read under two spellings are optional.
\<close>

record review =
  review_id :: string
  question_id :: "string option"
  questionId :: "string option"
  question_index :: int
  category :: string
  reviewer_name :: "string option"
  reviewerName :: "string option"
  answer :: "string option"
  correct_answer :: string
  is_correct :: "bool option"
  isCorrect :: "bool option"
  comment :: string

text \<open>A progress marker of the local store.\<close>

record progress_marker =
  reviewerName :: string
  category :: string
  questionIndex :: int
  timestamp :: string

text \<open>\<open>AWS_CONFIG\<close> (\<open>aws-config.js\<close>); \<open>None\<close> where the global is undefined.\<close>

record aws_config =
  apiEndpoint :: string
  enableS3Upload :: bool

section \<open>storage.js\<close>

text \<open>
  An item of \<open>localStorage\<close>, by what \<open>JSON.parse\<close> makes of it: no item, a text that
  does not parse, or the parsed value. \<open>localStorage.setItem\<close> itself always succeeds.
\<close>

datatype 'a item = Missing | Unparsable | Parsed 'a

record local_storage =
  review_results :: "review list item"
  review_progress :: "progress_marker js_object item"

definition getAllResults :: "local_storage \<Rightarrow> review list" where
  "getAllResults st = (case review_results st of Parsed rs \<Rightarrow> rs | _ \<Rightarrow> [])"

definition getAllProgress :: "local_storage \<Rightarrow> progress_marker js_object" where
  "getAllProgress st = (case review_progress st of Parsed p \<Rightarrow> p | _ \<Rightarrow> [])"

text \<open>
  \<open>updateComment\<close>: the whole body is inside \<open>try\<close>/\<open>catch\<close>, so the result is always a
  boolean together with the store it leaves.
\<close>

definition updateComment :: "string \<Rightarrow> string \<Rightarrow> local_storage \<Rightarrow> bool \<times> local_storage" where
  "updateComment reviewId c st =
     (let results = getAllResults st in
      case findIndex (\<lambda>r. review_id r = reviewId) results of
        Some index \<Rightarrow>
          (True, st\<lparr>review_results := Parsed (results[index := (results ! index)\<lparr>review.comment := c\<rparr>])\<rparr>)
      | None \<Rightarrow> (False, st))"

text \<open>
  The remote store as the sources see it: the outcome of one \<open>fetch\<close>. A \<open>GET\<close> of the
  review list either rejects, or answers with a status and a body that parses or not; the
  parsed body has a \<open>success\<close> flag and a \<open>reviews\<close> property that is falsy, a truthy value
  that is no array, or an array of records.
\<close>

datatype reviews_property = Falsy | NotArray | Array "review list"

datatype response_body = BadJson | Json bool reviews_property

datatype fetch_result = NetworkFailure | Response bool response_body

text \<open>What \<open>getReviewsFromAPI\<close> resolves to: an array of records, or a value without \<open>filter\<close>.\<close>

datatype fetched = Reviews "review list" | NonArray

definition remoteEnabled :: "aws_config option \<Rightarrow> bool" where
  "remoteEnabled cfg =
     (case cfg of None \<Rightarrow> False | Some c \<Rightarrow> apiEndpoint c \<noteq> [] \<and> enableS3Upload c)"

definition getReviewsFromAPI :: "aws_config option \<Rightarrow> fetch_result \<Rightarrow> fetched" where
  "getReviewsFromAPI cfg res =
     (case cfg of
        None \<Rightarrow> Reviews []
      | Some c \<Rightarrow>
          if \<not> enableS3Upload c then Reviews []
          else if apiEndpoint c = [] then Reviews []
          else (case res of
                  NetworkFailure \<Rightarrow> Reviews []
                | Response ok body \<Rightarrow>
                    if \<not> ok then Reviews []
                    else (case body of
                            BadJson \<Rightarrow> Reviews []
                          | Json success revs \<Rightarrow>
                              if success then
                                (case revs of Falsy \<Rightarrow> Reviews [] | NotArray \<Rightarrow> NonArray
                                 | Array rs \<Rightarrow> Reviews rs)
                              else Reviews [])))"

text \<open>
  \<open>getMissingQuestions\<close>: a value without \<open>filter\<close> raises a \<open>TypeError\<close> inside the
  \<open>try\<close> block, and the \<open>catch\<close> returns the empty array.
\<close>

definition getMissingQuestions ::
  "aws_config option \<Rightarrow> fetch_result \<Rightarrow> string \<Rightarrow> string \<Rightarrow> quiz_question list \<Rightarrow> nat list" where
  "getMissingQuestions cfg res reviewer cat allQuestions =
     (case getReviewsFromAPI cfg res of
        NonArray \<Rightarrow> []
      | Reviews s3Reviews \<Rightarrow>
          (let relevantReviews =
                 filter (\<lambda>r. reviewer_name r = Some reviewer \<and> review.category r = cat) s3Reviews;
               savedIndexes = set (map question_index relevantReviews)
           in filter (\<lambda>i. int i \<notin> savedIndexes) [0..<length allQuestions]))"

text \<open>
  \<open>saveProgress\<close> and \<open>saveProgressToAPI\<close>. The world is the local store and the log of the
  writes issued so far, oldest first. The \<open>PUT\<close> either rejects or answers with a status; every
  failure is caught inside \<open>saveProgressToAPI\<close>, which then returns \<open>false\<close>.
\<close>

datatype effect = LocalSetItem string | RemotePut string string int

record world =
  storage :: local_storage
  effects :: "effect list"

datatype put_result = PutRejected | PutResponse bool

definition PROGRESS_KEY :: string where
  "PROGRESS_KEY = ''review_progress''"

definition progressKey :: "string \<Rightarrow> string \<Rightarrow> string" where
  "progressKey reviewer cat = reviewer @ ''__'' @ cat"

definition saveProgressToAPI :: "put_result \<Rightarrow> string \<Rightarrow> string \<Rightarrow> int \<Rightarrow> world \<Rightarrow> bool \<times> world" where
  "saveProgressToAPI res reviewer cat idx w =
     (let w' = w\<lparr>effects := effects w @ [RemotePut reviewer cat idx]\<rparr> in
      case res of PutRejected \<Rightarrow> (False, w') | PutResponse ok \<Rightarrow> (ok, w'))"

definition saveProgress ::
  "aws_config option \<Rightarrow> put_result \<Rightarrow> string \<Rightarrow> string \<Rightarrow> string \<Rightarrow> int \<Rightarrow> world \<Rightarrow> world" where
  "saveProgress cfg res now reviewer cat idx w =
     (let progressData = getAllProgress (storage w);
          key = progressKey reviewer cat;
          progressData' = AList.update key
            \<lparr>progress_marker.reviewerName = reviewer, progress_marker.category = cat,
             progress_marker.questionIndex = idx, timestamp = now\<rparr>
            progressData;
          w1 = w\<lparr>storage := (storage w)\<lparr>review_progress := Parsed progressData'\<rparr>,
                 effects := effects w @ [LocalSetItem PROGRESS_KEY]\<rparr>
      in if remoteEnabled cfg then snd (saveProgressToAPI res reviewer cat idx w1) else w1)"

section \<open>app.js\<close>

text \<open>
  The state of \<open>QuizApp\<close> that answering a question reads and writes. \<open>choiceButtons\<close>
  holds the \<open>textContent\<close> of the \<open>.choice-btn\<close> elements, in document order.
\<close>

record quiz_app =
  questions :: "quiz_question list"
  currentIndex :: nat
  selectedAnswer :: "nat option"
  correctAnswerIndex :: "nat option"
  reviewerName :: string
  category :: string
  currentReviewId :: "string option"
  choiceButtons :: "string list"

datatype js_error = TypeError

definition renderChoices :: "string list \<Rightarrow> string option \<Rightarrow> quiz_app \<Rightarrow> quiz_app" where
  "renderChoices choices correctAnswer app =
     (let found = (if truthy correctAnswer
                   then findIndex (\<lambda>c. Some c = correctAnswer) choices
                   else Some 0);
          idx = (case found of None \<Rightarrow> 0 | Some i \<Rightarrow> i)
      in app\<lparr>correctAnswerIndex := Some idx, choiceButtons := choices\<rparr>)"

definition showQuestion :: "quiz_app \<Rightarrow> js_error + quiz_app" where
  "showQuestion app =
     (if currentIndex app < length (questions app) then
        (let q = questions app ! currentIndex app
         in Inr (renderChoices (choice q) (quiz_question.answer q)
                   (app\<lparr>selectedAnswer := None, currentReviewId := None\<rparr>)))
      else Inl TypeError)"

definition selectAnswer :: "nat \<Rightarrow> quiz_app \<Rightarrow> quiz_app" where
  "selectAnswer index app = app\<lparr>selectedAnswer := Some index\<rparr>"

text \<open>The object that \<open>submitAnswer\<close> passes to \<open>StorageManager.saveResult\<close>.\<close>

record submission =
  questionId :: string
  questionIndex :: nat
  category :: string
  reviewerName :: string
  answer :: string
  correctAnswer :: string
  isCorrect :: bool
  comment :: string

text \<open>
  \<open>saveResult\<close> appends the stored form of the submission to the result list; the review id
  (time stamp and random suffix) is a parameter. Fields of the stored record that no modelled
  function reads (\<open>question_set\<close>, \<open>keyword\<close>, \<open>question_text\<close>, \<open>timestamp\<close>) are left out.
\<close>

definition saveResult :: "string \<Rightarrow> submission \<Rightarrow> local_storage \<Rightarrow> string \<times> local_storage" where
  "saveResult reviewId result st =
     (let results = getAllResults st;
          reviewResult =
            \<lparr>review_id = reviewId,
             question_id = Some (submission.questionId result),
             review.questionId = None,
             question_index = int (submission.questionIndex result),
             review.category = submission.category result,
             reviewer_name = Some (submission.reviewerName result),
             review.reviewerName = None,
             review.answer = Some (submission.answer result),
             correct_answer = correctAnswer result,
             is_correct = Some (submission.isCorrect result),
             review.isCorrect = None,
             review.comment = submission.comment result\<rparr>
      in (reviewId, st\<lparr>review_results := Parsed (results @ [reviewResult])\<rparr>))"

text \<open>
  \<open>submitAnswer\<close>: nothing happens while no choice is selected; reading a button or a
  question that does not exist raises a \<open>TypeError\<close>, which nothing catches.
\<close>

definition submitAnswer ::
  "string \<Rightarrow> quiz_app \<times> local_storage \<Rightarrow> js_error + (quiz_app \<times> local_storage)" where
  "submitAnswer freshId s =
     (let app = fst s; st = snd s in
      case (selectedAnswer app, correctAnswerIndex app) of
        (Some sel, Some cor) \<Rightarrow>
          if sel < length (choiceButtons app) \<and> cor < length (choiceButtons app)
             \<and> currentIndex app < length (questions app)
          then
            (let q = questions app ! currentIndex app;
                 correctFlag = (sel = cor);
                 selectedText = choiceButtons app ! sel;
                 correctText = choiceButtons app ! cor;
                 saved = saveResult freshId
                   \<lparr>submission.questionId = questionID q,
                    submission.questionIndex = currentIndex app,
                    submission.category = quiz_question.category q,
                    submission.reviewerName = quiz_app.reviewerName app,
                    submission.answer = selectedText,
                    correctAnswer = correctText,
                    submission.isCorrect = correctFlag,
                    submission.comment = ''''\<rparr> st
             in Inr (app\<lparr>currentReviewId := Some (fst saved)\<rparr>, snd saved))
          else Inl TypeError
      | _ \<Rightarrow> Inr (app, st))"

section \<open>analytics.js\<close>

text \<open>A review joined with its catalog question; \<open>None\<close> is the empty object \<open>{}\<close>.\<close>

record enriched_review = review +
  question :: "quiz_question option"

definition enrich :: "review \<Rightarrow> quiz_question option \<Rightarrow> enriched_review" where
  "enrich r q = review.extend r (enriched_review.fields q)"

text \<open>\<open>review.reviewer_name || review.reviewerName || 'Unknown'\<close>\<close>

definition reviewerOf :: "'a review_scheme \<Rightarrow> string" where
  "reviewerOf r =
     (case js_or (js_or (reviewer_name r) (review.reviewerName r)) (Some ''Unknown'') of
        Some s \<Rightarrow> s | None \<Rightarrow> ''undefined'')"

text \<open>\<open>review.question_id || review.questionId\<close>\<close>

definition questionIdOf :: "'a review_scheme \<Rightarrow> string option" where
  "questionIdOf r = js_or (question_id r) (review.questionId r)"

text \<open>\<open>review.is_correct || review.isCorrect\<close>, as a condition\<close>

definition correctOf :: "'a review_scheme \<Rightarrow> bool" where
  "correctOf r = flag_or (is_correct r) (review.isCorrect r)"

text \<open>
  \<open>Array.prototype.forEach\<close> with a callback that may throw: the first exception ends the
  loop and is the outcome.
\<close>

fun forEach :: "('a \<Rightarrow> 's \<Rightarrow> js_error + 's) \<Rightarrow> 'a list \<Rightarrow> 's \<Rightarrow> js_error + 's" where
  "forEach f [] s = Inr s"
| "forEach f (x # xs) s = (case f x s of Inl e \<Rightarrow> Inl e | Inr s' \<Rightarrow> forEach f xs s')"

subsection \<open>calculateByReviewer\<close>

record reviewer_acc =
  correct :: nat
  total :: nat
  uniqueQuestions :: "string option set"
  correctQuestions :: "string option set"

record reviewer_stat =
  correct :: nat
  total :: nat
  accuracy :: rat

text \<open>
  The body of the loop over the enriched records. For a reviewer named like an inherited
  property \<open>!stats[reviewer]\<close> is false, so no group is created; \<open>stats[reviewer]\<close> is
  then a built-in value, its \<open>uniqueQuestions\<close> is \<open>undefined\<close>, and the call of \<open>has\<close>
  throws a \<open>TypeError\<close>.
\<close>

definition byReviewer_step ::
  "'a review_scheme \<Rightarrow> reviewer_acc js_object \<Rightarrow> js_error + reviewer_acc js_object" where
  "byReviewer_step review stats =
     (let reviewer = reviewerOf review;
          qid = questionIdOf review;
          stats1 = (if absent stats reviewer
                    then AList.update reviewer
                           \<lparr>reviewer_acc.correct = 0, reviewer_acc.total = 0,
                             uniqueQuestions = {}, correctQuestions = {}\<rparr> stats
                    else stats)
      in case map_of stats1 reviewer of
           None \<Rightarrow> Inl TypeError
         | Some s \<Rightarrow>
             if qid \<notin> uniqueQuestions s then
               (let s1 = s\<lparr>reviewer_acc.total := reviewer_acc.total s + 1,
                           uniqueQuestions := insert qid (uniqueQuestions s)\<rparr>;
                    s2 = (if correctOf review
                          then s1\<lparr>reviewer_acc.correct := reviewer_acc.correct s1 + 1,
                                  correctQuestions := insert qid (correctQuestions s1)\<rparr>
                          else s1)
                in Inr (AList.update reviewer s2 stats1))
             else Inr stats1)"

definition reviewer_finish :: "reviewer_acc \<Rightarrow> reviewer_stat" where
  "reviewer_finish s =
     \<lparr>reviewer_stat.correct = reviewer_acc.correct s,
      reviewer_stat.total = reviewer_acc.total s,
      reviewer_stat.accuracy = (if reviewer_acc.total s > 0
                  then toFixed1 (jsPercent (reviewer_acc.correct s) (reviewer_acc.total s)) else 0)\<rparr>"

definition calculateByReviewer :: "'a review_scheme list \<Rightarrow> js_error + reviewer_stat js_object" where
  "calculateByReviewer enriched =
     (case forEach byReviewer_step enriched [] of
        Inl e \<Rightarrow> Inl e
      | Inr stats \<Rightarrow> Inr (map (\<lambda>kv. (fst kv, reviewer_finish (snd kv))) stats))"

subsection \<open>calculateOverallStats\<close>

record overall_stat =
  accuracy :: rat
  reviewerCount :: nat


subsection \<open>calculateByAuthor\<close>

record pair_acc =
  correct :: nat
  total :: nat

record author_stat =
  questionCount :: nat
  accuracy :: rat
  reviewerCount :: nat

text \<open>\<open>review.question.authored_by\<close>, and the test \<open>!author || author === 'Unknown'\<close>\<close>

definition authorOf :: "'a enriched_review_scheme \<Rightarrow> string option" where
  "authorOf r = (case enriched_review.question r of None \<Rightarrow> None | Some q \<Rightarrow> authored_by q)"

definition skipAuthor :: "string option \<Rightarrow> bool" where
  "skipAuthor a = (\<not> truthy a \<or> a = Some ''Unknown'')"

text \<open>
  The body of the first loop. For an author or a reviewer named like an inherited property
  the object found is a built-in one: no own property is created under that name, and the
  counts are added to the built-in object, so that the record leaves no trace in
  \<open>authorReviewerStats\<close>. What such a write changes for later lookups (after a record
  with the author \<open>__proto__\<close> every object inherits a property with the reviewer's
  name) is not represented; the statements about this function exclude these names.
\<close>

definition byAuthor_step ::
  "'a enriched_review_scheme \<Rightarrow> pair_acc js_object js_object \<Rightarrow> pair_acc js_object js_object" where
  "byAuthor_step review authorReviewerStats =
     (let author = authorOf review;
          reviewer = reviewerOf review
      in if skipAuthor author then authorReviewerStats
         else
           (let a = js_key author;
                ars1 = (if absent authorReviewerStats a
                        then AList.update a [] authorReviewerStats else authorReviewerStats)
            in case map_of ars1 a of
                 None \<Rightarrow> ars1
               | Some inner \<Rightarrow>
                   (let inner1 = (if absent inner reviewer
                                  then AList.update reviewer \<lparr>pair_acc.correct = 0, pair_acc.total = 0\<rparr> inner
                                  else inner)
                    in case map_of inner1 reviewer of
                         None \<Rightarrow> ars1
                       | Some s \<Rightarrow>
                           (let s1 = s\<lparr>pair_acc.total := pair_acc.total s + 1\<rparr>;
                                s2 = (if correctOf review
                                      then s1\<lparr>pair_acc.correct := pair_acc.correct s1 + 1\<rparr> else s1)
                            in AList.update a (AList.update reviewer s2 inner1) ars1))))"

text \<open>
  The body of the loop over the catalog. Under a name that is an inherited property the
  loop stores a string (a built-in value followed by \<open>1\<close>); no later statement reads
  it, and it is left out.
\<close>

definition authorCount_step :: "quiz_question \<Rightarrow> nat js_object \<Rightarrow> nat js_object" where
  "authorCount_step q authorQuestionCounts =
     (let author = authored_by q
      in if \<not> skipAuthor author \<and> \<not> inherited (js_key author)
         then AList.update (js_key author)
                ((case map_of authorQuestionCounts (js_key author) of None \<Rightarrow> 0 | Some n \<Rightarrow> n) + 1)
                authorQuestionCounts
         else authorQuestionCounts)"

definition pairAccuracy :: "pair_acc \<Rightarrow> rat" where
  "pairAccuracy s =
     (if pair_acc.total s > 0 then jsPercent (pair_acc.correct s) (pair_acc.total s) else 0)"

definition byAuthor_finish ::
  "pair_acc js_object js_object \<Rightarrow> nat js_object \<Rightarrow> string \<Rightarrow> author_stat js_object
     \<Rightarrow> author_stat js_object" where
  "byAuthor_finish authorReviewerStats authorQuestionCounts author stats =
     (let reviewerStats = the (map_of authorReviewerStats author);
          reviewers = map fst (ownEntries reviewerStats)
      in if length reviewers = 0 then stats
         else
           (let accuracies = map (\<lambda>reviewer. pairAccuracy (the (map_of reviewerStats reviewer))) reviewers;
                avgAccuracy = fl (foldl (\<lambda>sum acc. fl (sum + acc)) 0 accuracies
                                    / of_nat (length accuracies))
            in AList.update author
                 \<lparr>questionCount = (case map_of authorQuestionCounts author of None \<Rightarrow> 0 | Some n \<Rightarrow> n),
                  author_stat.accuracy = toFixed1 avgAccuracy,
                  author_stat.reviewerCount = length reviewers\<rparr> stats))"

definition calculateByAuthor ::
  "quiz_question list \<Rightarrow> 'a enriched_review_scheme list \<Rightarrow> author_stat js_object" where
  "calculateByAuthor qs enriched =
     (let authorReviewerStats = fold byAuthor_step enriched [];
          authorQuestionCounts = fold authorCount_step qs []
      in fold (byAuthor_finish authorReviewerStats authorQuestionCounts)
           (map fst (ownEntries authorReviewerStats)) [])"

subsection \<open>calculateByQuestion\<close>

record question_acc =
  questionId :: "string option"
  question :: "quiz_question option"
  correct :: nat
  total :: nat

record question_stat = question_acc +
  accuracy :: rat

text \<open>
  The body of the loop. For a question id named like an inherited property no group is
  created, and the counts are added to the built-in value, which is no own property of
  \<open>stats\<close>.
\<close>

definition byQuestion_step ::
  "'a enriched_review_scheme \<Rightarrow> question_acc js_object \<Rightarrow> question_acc js_object" where
  "byQuestion_step review stats =
     (let qid = questionIdOf review;
          k = js_key qid;
          stats1 = (if absent stats k
                    then AList.update k
                           \<lparr>question_acc.questionId = qid,
                            question_acc.question = enriched_review.question review,
                            question_acc.correct = 0, question_acc.total = 0\<rparr> stats
                    else stats)
      in case map_of stats1 k of
           None \<Rightarrow> stats1
         | Some s \<Rightarrow>
             (let s1 = s\<lparr>question_acc.total := question_acc.total s + 1\<rparr>;
                  s2 = (if correctOf review
                        then s1\<lparr>question_acc.correct := question_acc.correct s1 + 1\<rparr> else s1)
              in AList.update k s2 stats1))"

definition question_finish :: "question_acc \<Rightarrow> question_stat" where
  "question_finish s =
     question_acc.extend s
       (question_stat.fields
          (if question_acc.total s > 0
           then toFixed1 (jsPercent (question_acc.correct s) (question_acc.total s)) else 0))"

text \<open>
  The groups in the order of \<open>Object.values(stats)\<close>, before the sort, and the sorted list.
  \<open>Array.prototype.sort\<close> is stable; the comparator is the difference of the parsed
  accuracies, whose sign is that of comparing \<open>fl\<close> of the accuracies.
\<close>

definition questionGroups :: "'a enriched_review_scheme list \<Rightarrow> question_stat list" where
  "questionGroups enriched =
     map (\<lambda>kv. question_finish (snd kv)) (ownEntries (fold byQuestion_step enriched []))"

definition calculateByQuestion :: "'a enriched_review_scheme list \<Rightarrow> question_stat list" where
  "calculateByQuestion enriched =
     sort_key (\<lambda>s. fl (question_stat.accuracy s)) (questionGroups enriched)"

subsection \<open>analyzeData\<close>

record analysis =
  enrichedReviews :: "enriched_review list"
  authorStats :: "author_stat js_object"
  reviewerStats :: "reviewer_stat js_object"
  questionStats :: "question_stat list"
  overallStats :: overall_stat




subsection \<open>downloadQuestionCSV\<close>

text \<open>The object stored per question and reviewer, and the cells written from it.\<close>

record exported =
  answer :: "string option"
  is_correct :: bool





section \<open>Reference definitions and example data\<close>

text \<open>
  The set of distinct \<open>question_index\<close> values among the records of one reviewer and
  category, as the description of the reconciler words it.
\<close>

definition remoteIndexes :: "review list \<Rightarrow> string \<Rightarrow> string \<Rightarrow> int set" where
  "remoteIndexes rs reviewer cat =
     set (map question_index (filter (\<lambda>r. reviewer_name r = Some reviewer \<and> review.category r = cat) rs))"

text \<open>Concrete records, questions and configuration for the worked instances.\<close>

definition mkReview :: "string \<Rightarrow> string \<Rightarrow> string \<Rightarrow> string \<Rightarrow> int \<Rightarrow> bool \<Rightarrow> review" where
  "mkReview rid reviewer cat qid idx ok =
     \<lparr>review_id = rid, question_id = Some qid, review.questionId = None, question_index = idx,
      review.category = cat, reviewer_name = Some reviewer, review.reviewerName = None,
      review.answer = Some (if ok then ''x'' else ''y''), correct_answer = ''x'',
      review.is_correct = Some ok, review.isCorrect = None, review.comment = ''''\<rparr>"

definition mkQuestion :: "string \<Rightarrow> string \<Rightarrow> string \<Rightarrow> quiz_question" where
  "mkQuestion qid cat author =
     \<lparr>questionID = qid, quiz_question.question = ''?'', quiz_question.category = cat,
      authored_by = Some author, choice = [''x'', ''y'', ''z'', ''w''],
      quiz_question.answer = Some ''x''\<rparr>"

definition liveConfig :: "aws_config option" where
  "liveConfig = Some \<lparr>apiEndpoint = ''https://host/review'', enableS3Upload = True\<rparr>"

definition exampleRemote :: "review list" where
  "exampleRemote =
     [mkReview ''r1'' ''alice'' ''food'' ''q1'' 0 True, mkReview ''r2'' ''alice'' ''food'' ''q2'' 1 False,
      mkReview ''r3'' ''alice'' ''food'' ''q4'' 3 True, mkReview ''r4'' ''bob'' ''food'' ''q3'' 2 True]"

definition exampleCatalog :: "quiz_question list" where
  "exampleCatalog =
     [mkQuestion ''q1'' ''food'' ''A'', mkQuestion ''q2'' ''food'' ''B'',
      mkQuestion ''q3'' ''food'' ''A'', mkQuestion ''q4'' ''food'' ''B'']"

definition exampleStore :: local_storage where
  "exampleStore =
     \<lparr>review_results = Parsed exampleRemote,
      review_progress = Parsed
        [(''bob__food'',
          \<lparr>progress_marker.reviewerName = ''bob'', progress_marker.category = ''food'',
           progress_marker.questionIndex = 2, timestamp = ''t0''\<rparr>)]\<rparr>"

text \<open>
  One pass of the session over the current question: the question is shown, the choice with
  index \<open>k\<close> is clicked, and the answer is submitted. \<open>storedAfter\<close> reads the result list
  of the store that such a pass leaves.
\<close>

definition answerQuestion ::
  "string \<Rightarrow> nat \<Rightarrow> quiz_app \<times> local_storage \<Rightarrow> js_error + (quiz_app \<times> local_storage)" where
  "answerQuestion freshId k s =
     (case showQuestion (fst s) of
        Inl e \<Rightarrow> Inl e
      | Inr app1 \<Rightarrow> submitAnswer freshId (selectAnswer k app1, snd s))"

definition storedAfter :: "js_error + (quiz_app \<times> local_storage) \<Rightarrow> review list" where
  "storedAfter out = (case out of Inl e \<Rightarrow> [] | Inr s \<Rightarrow> getAllResults (snd s))"

definition dupQuestion :: quiz_question where
  "dupQuestion =
     \<lparr>questionID = ''q7'', quiz_question.question = ''?'', quiz_question.category = ''food'',
      authored_by = Some ''A'', choice = [''a'', ''a'', ''b'', ''c''],
      quiz_question.answer = Some ''a''\<rparr>"

definition dupApp :: quiz_app where
  "dupApp =
     \<lparr>questions = [dupQuestion], currentIndex = 0, selectedAnswer = None,
      correctAnswerIndex = None, quiz_app.reviewerName = ''bob'', quiz_app.category = ''food'',
      currentReviewId = None, choiceButtons = []\<rparr>"

definition emptyStore :: local_storage where
  "emptyStore = \<lparr>review_results = Missing, review_progress = Missing\<rparr>"

definition dupRecord :: review where
  "dupRecord =
     \<lparr>review_id = ''id1'', question_id = Some ''q7'', review.questionId = None, question_index = 0,
      review.category = ''food'', reviewer_name = Some ''bob'', review.reviewerName = None,
      review.answer = Some ''a'', correct_answer = ''a'',
      review.is_correct = Some False, review.isCorrect = None, review.comment = ''''\<rparr>"




text \<open>Two records of one reviewer for one question: first a correct, then a wrong answer.\<close>

definition dupReviews :: "review list" where
  "dupReviews =
     [mkReview ''r1'' ''bob'' ''food'' ''q1'' 0 True, mkReview ''r2'' ''bob'' ''food'' ''q1'' 0 False]"

text \<open>
  The by-reviewer statistics in the words of their description: the distinct question ids
  that a reviewer has records for, the first record of the reviewer for a question id in
  input order, and whether that record is correct.
\<close>

definition questionsOf :: "string \<Rightarrow> 'a review_scheme list \<Rightarrow> string option list" where
  "questionsOf reviewer rs = remdups (map questionIdOf (filter (\<lambda>r. reviewerOf r = reviewer) rs))"

definition firstRecordFor :: "string \<Rightarrow> string option \<Rightarrow> 'a review_scheme list \<Rightarrow> 'a review_scheme option" where
  "firstRecordFor reviewer qid rs = List.find (\<lambda>r. reviewerOf r = reviewer \<and> questionIdOf r = qid) rs"

definition firstCorrect :: "string \<Rightarrow> 'a review_scheme list \<Rightarrow> string option \<Rightarrow> bool" where
  "firstCorrect reviewer rs qid =
     (case firstRecordFor reviewer qid rs of Some r \<Rightarrow> correctOf r | None \<Rightarrow> False)"

definition correctQuestionsOf :: "string \<Rightarrow> 'a review_scheme list \<Rightarrow> string option list" where
  "correctQuestionsOf reviewer rs = filter (firstCorrect reviewer rs) (questionsOf reviewer rs)"

text \<open>The accumulator that the loop of \<open>calculateByReviewer\<close> holds for a reviewer.\<close>

definition accState :: "string \<Rightarrow> 'a review_scheme list \<Rightarrow> reviewer_acc" where
  "accState reviewer rs =
     \<lparr>reviewer_acc.correct = length (correctQuestionsOf reviewer rs),
      reviewer_acc.total = length (questionsOf reviewer rs),
      uniqueQuestions = set (questionsOf reviewer rs),
      correctQuestions = set (correctQuestionsOf reviewer rs)\<rparr>"

text \<open>One record of a reviewer who entered the name \<open>constructor\<close>.\<close>

definition constructorReviews :: "review list" where
  "constructorReviews = [mkReview ''r1'' ''constructor'' ''food'' ''q1'' 0 True]"



text \<open>The enriched records of these reviews, and their by-reviewer group.\<close>

definition threeEnriched :: "enriched_review list" where
  "threeEnriched =
     [enrich (mkReview ''r1'' ''ann'' ''food'' ''q1'' 0 True) (Some (mkQuestion ''q1'' ''food'' ''A'')),
      enrich (mkReview ''r2'' ''bob'' ''food'' ''q1'' 0 False) (Some (mkQuestion ''q1'' ''food'' ''A'')),
      enrich (mkReview ''r3'' ''cy'' ''food'' ''q1'' 0 False) (Some (mkQuestion ''q1'' ''food'' ''A''))]"


text \<open>
  The order of first occurrence in a list, and the order in which the own properties with
  the keys of a list, inserted in the order of the list, are enumerated.
\<close>

definition firstSeen :: "'a list \<Rightarrow> 'a list" where
  "firstSeen xs = rev (remdups (rev xs))"

definition keyOrder :: "string list \<Rightarrow> string list" where
  "keyOrder ks =
     sort_key (\<lambda>k. the (array_index k)) (filter (\<lambda>k. array_index k \<noteq> None) ks)
     @ filter (\<lambda>k. array_index k = None) ks"

text \<open>
  The by-question statistics in the words of their description: the records filed under
  one property key (none under the name of an inherited property), the group they make,
  which keeps the question id and the question of the first of them, and the keys of the
  groups in the order of their enumeration.
\<close>

definition questionKey :: "'a review_scheme \<Rightarrow> string" where
  "questionKey r = js_key (questionIdOf r)"

definition recordsFor :: "string \<Rightarrow> 'a enriched_review_scheme list \<Rightarrow> 'a enriched_review_scheme list" where
  "recordsFor k rs = filter (\<lambda>r. questionKey r = k \<and> \<not> inherited k) rs"

definition groupOf :: "string \<Rightarrow> 'a enriched_review_scheme list \<Rightarrow> question_acc option" where
  "groupOf k rs =
     (case recordsFor k rs of
        [] \<Rightarrow> None
      | r0 # _ \<Rightarrow>
          Some \<lparr>question_acc.questionId = questionIdOf r0,
                question_acc.question = enriched_review.question r0,
                question_acc.correct = length (filter correctOf (recordsFor k rs)),
                question_acc.total = length (recordsFor k rs)\<rparr>)"

definition statKey :: "question_stat \<Rightarrow> string" where
  "statKey s = js_key (question_acc.questionId s)"

definition keyAccuracy :: "string \<Rightarrow> 'a enriched_review_scheme list \<Rightarrow> rat" where
  "keyAccuracy k rs =
     toFixed1 (jsPercent (length (filter correctOf (recordsFor k rs))) (length (recordsFor k rs)))"

definition groupKeys :: "'a enriched_review_scheme list \<Rightarrow> string list" where
  "groupKeys rs = keyOrder (firstSeen (filter (\<lambda>k. \<not> inherited k) (map questionKey rs)))"

text \<open>Two reviewers answering two questions, the second question first.\<close>

definition fourEnriched :: "enriched_review list" where
  "fourEnriched =
     [enrich (mkReview ''r1'' ''ann'' ''food'' ''q2'' 1 True) (Some (mkQuestion ''q2'' ''food'' ''B'')),
      enrich (mkReview ''r2'' ''ann'' ''food'' ''q1'' 0 False) (Some (mkQuestion ''q1'' ''food'' ''A'')),
      enrich (mkReview ''r3'' ''bob'' ''food'' ''q1'' 0 True) (Some (mkQuestion ''q1'' ''food'' ''A'')),
      enrich (mkReview ''r4'' ''bob'' ''food'' ''q2'' 1 True) (Some (mkQuestion ''q2'' ''food'' ''B''))]"

text \<open>One correct answer to the question with the id \<open>10\<close>, then one to the question with the id \<open>2\<close>.\<close>

definition tieEnriched :: "enriched_review list" where
  "tieEnriched =
     [enrich (mkReview ''r1'' ''ann'' ''food'' ''10'' 0 True) (Some (mkQuestion ''10'' ''food'' ''A'')),
      enrich (mkReview ''r2'' ''ann'' ''food'' ''2'' 1 True) (Some (mkQuestion ''2'' ''food'' ''A''))]"

text \<open>
  The by-author statistics in the words of their description: the records of an author
  that is neither absent nor \<open>Unknown\<close>, the reviewers among them in the order of their
  first record, each reviewer's counts and accuracy on the author's records, the mean of
  these accuracies, and the number of catalog questions that the author wrote.
  \<open>authorAccuracy\<close> is the mean as the doubles give it: the accuracies are added in the
  order in which the reviewers are enumerated, and the result is printed with one decimal.
\<close>

definition validAuthor :: "string \<Rightarrow> bool" where
  "validAuthor a = (a \<noteq> [] \<and> a \<noteq> ''Unknown'')"

definition authorRecords :: "string \<Rightarrow> 'a enriched_review_scheme list \<Rightarrow> 'a enriched_review_scheme list" where
  "authorRecords a es = filter (\<lambda>r. authorOf r = Some a \<and> validAuthor a) es"

definition pairRecords ::
  "string \<Rightarrow> string \<Rightarrow> 'a enriched_review_scheme list \<Rightarrow> 'a enriched_review_scheme list" where
  "pairRecords a v es = filter (\<lambda>r. reviewerOf r = v) (authorRecords a es)"

definition reviewersOfAuthor :: "string \<Rightarrow> 'a enriched_review_scheme list \<Rightarrow> string list" where
  "reviewersOfAuthor a es = firstSeen (map reviewerOf (authorRecords a es))"

definition pairCounts :: "string \<Rightarrow> 'a enriched_review_scheme list \<Rightarrow> string \<Rightarrow> pair_acc" where
  "pairCounts a es v =
     \<lparr>pair_acc.correct = length (filter correctOf (pairRecords a v es)),
      pair_acc.total = length (pairRecords a v es)\<rparr>"

definition pairPercent :: "string \<Rightarrow> 'a enriched_review_scheme list \<Rightarrow> string \<Rightarrow> rat" where
  "pairPercent a es v =
     of_nat (length (filter correctOf (pairRecords a v es))) / of_nat (length (pairRecords a v es)) * 100"

definition authorMean :: "string \<Rightarrow> 'a enriched_review_scheme list \<Rightarrow> rat" where
  "authorMean a es =
     sum_list (map (pairPercent a es) (reviewersOfAuthor a es)) / of_nat (length (reviewersOfAuthor a es))"

definition pairDouble :: "string \<Rightarrow> 'a enriched_review_scheme list \<Rightarrow> string \<Rightarrow> rat" where
  "pairDouble a es v =
     jsPercent (length (filter correctOf (pairRecords a v es))) (length (pairRecords a v es))"

definition authorAccuracy :: "string \<Rightarrow> 'a enriched_review_scheme list \<Rightarrow> rat" where
  "authorAccuracy a es =
     toFixed1 (fl (foldl (\<lambda>sum acc. fl (sum + acc)) 0
                     (map (pairDouble a es) (keyOrder (reviewersOfAuthor a es)))
                   / of_nat (length (reviewersOfAuthor a es))))"

definition authoredCount :: "string \<Rightarrow> quiz_question list \<Rightarrow> nat" where
  "authoredCount a qs = length (filter (\<lambda>q. authored_by q = Some a) qs)"


definition ownNames :: "'a enriched_review_scheme list \<Rightarrow> bool" where
  "ownNames es =
     list_all (\<lambda>r. skipAuthor (authorOf r)
                  \<or> (\<not> inherited (js_key (authorOf r)) \<and> \<not> inherited (reviewerOf r))) es"

text \<open>What the loop of \<open>calculateByAuthor\<close> holds for an author: one pair of counts per reviewer.\<close>

definition innerOk :: "string \<Rightarrow> 'a enriched_review_scheme list \<Rightarrow> pair_acc js_object \<Rightarrow> bool" where
  "innerOk a es inner =
     (map fst inner = reviewersOfAuthor a es \<and>
      (\<forall>v. map_of inner v = (if pairRecords a v es = [] then None else Some (pairCounts a es v))))"

text \<open>The entry that \<open>calculateByAuthor\<close> stores for an author with at least one reviewer.\<close>

definition authorEntry :: "pair_acc js_object js_object \<Rightarrow> nat js_object \<Rightarrow> string \<Rightarrow> author_stat" where
  "authorEntry authorReviewerStats authorQuestionCounts author =
     (let reviewerStats = the (map_of authorReviewerStats author);
          reviewers = map fst (ownEntries reviewerStats);
          accuracies = map (\<lambda>reviewer. pairAccuracy (the (map_of reviewerStats reviewer))) reviewers
      in \<lparr>questionCount = (case map_of authorQuestionCounts author of None \<Rightarrow> 0 | Some n \<Rightarrow> n),
          author_stat.accuracy =
            toFixed1 (fl (foldl (\<lambda>sum acc. fl (sum + acc)) 0 accuracies / of_nat (length accuracies))),
          author_stat.reviewerCount = length reviewers\<rparr>)"

section \<open>Verification\<close>

subsection \<open>Enumeration order of object properties\<close>

text \<open>
  Array-index keys come first, in ascending numeric order, whatever the insertion order; a
  numeral with a leading zero is an ordinary key.
\<close>

lemma ownEntries_order:
  "map fst (ownEntries [(''b'', x), (''10'', y), (''02'', z), (''2'', u)]) = [''2'', ''10'', ''b'', ''02'']"
  by (simp add: ownEntries_def array_index_def digits_value_def)

subsection \<open>The local result list and comment updates\<close>

lemma findIndex_None_iff: "findIndex p xs = None \<longleftrightarrow> (\<forall>x\<in>set xs. \<not> p x)"
  by (induction xs) auto

text \<open>
  C9. For every stored result list and every review id that no stored record carries,
  \<open>updateComment\<close> returns \<open>false\<close> and leaves the local store, and so the stored result
  list, exactly as it was. The function has no exceptional result: its body is enclosed in
  \<open>try\<close>/\<open>catch\<close>.
\<close>

theorem updateComment_unknown_id:
  "reviewId \<notin> review_id ` set (getAllResults st) \<Longrightarrow> updateComment reviewId c st = (False, st)"
proof -
  assume "reviewId \<notin> review_id ` set (getAllResults st)"
  then have "findIndex (\<lambda>r. review_id r = reviewId) (getAllResults st) = None"
    by (auto simp: findIndex_None_iff)
  then show ?thesis by (simp add: updateComment_def)
qed

theorem updateComment_unknown_id_witness:
  "''r9'' \<notin> review_id ` set (getAllResults exampleStore)
   \<and> updateComment ''r9'' ''late'' exampleStore = (False, exampleStore)"
  using updateComment_unknown_id [of "''r9''" exampleStore "''late''"]
  by (simp add: getAllResults_def exampleStore_def exampleRemote_def mkReview_def)

subsection \<open>The missing-record reconciler\<close>

lemma complement_filter:
  "int ` ({0..<n} - set (filter (\<lambda>i. int i \<notin> S) [0..<n])) = {i \<in> S. 0 \<le> i \<and> i < int n}"
proof (intro set_eqI iffI)
  fix i assume "i \<in> int ` ({0..<n} - set (filter (\<lambda>i. int i \<notin> S) [0..<n]))"
  then obtain k where "i = int k" "k < n" "int k \<in> S" by auto
  then show "i \<in> {i \<in> S. 0 \<le> i \<and> i < int n}" by simp
next
  fix i assume "i \<in> {i \<in> S. 0 \<le> i \<and> i < int n}"
  then have a: "i \<in> S" "0 \<le> i" "i < int n" by auto
  then have "nat i \<in> {0..<n} - set (filter (\<lambda>i. int i \<notin> S) [0..<n])" by auto
  then have "int (nat i) \<in> int ` ({0..<n} - set (filter (\<lambda>i. int i \<notin> S) [0..<n]))"
    by (rule imageI)
  with a show "i \<in> int ` ({0..<n} - set (filter (\<lambda>i. int i \<notin> S) [0..<n]))" by simp
qed

lemma getMissingQuestions_Reviews:
  "getReviewsFromAPI cfg res = Reviews rs \<Longrightarrow>
   getMissingQuestions cfg res reviewer cat qs =
     filter (\<lambda>i. int i \<notin> remoteIndexes rs reviewer cat) [0..<length qs]"
  by (simp add: getMissingQuestions_def remoteIndexes_def Let_def)

text \<open>
  C2 (amended). Whenever the remote list resolves to an array \<open>rs\<close> of records, for every
  reviewer, category and question list of length \<open>N\<close>, \<open>getMissingQuestions\<close> returns a
  strictly ascending sequence without duplicates, every element in \<open>[0, N)\<close>, and its
  complement within \<open>[0, N)\<close> is the set of those distinct \<open>question_index\<close> values of the
  reviewer's records in that category that lie in \<open>[0, N)\<close>.
\<close>

theorem getMissingQuestions_complement:
  assumes "getReviewsFromAPI cfg res = Reviews rs"
  shows "sorted_wrt (<) (getMissingQuestions cfg res reviewer cat qs)
       \<and> distinct (getMissingQuestions cfg res reviewer cat qs)
       \<and> set (getMissingQuestions cfg res reviewer cat qs) \<subseteq> {0..<length qs}
       \<and> int ` ({0..<length qs} - set (getMissingQuestions cfg res reviewer cat qs))
           = remoteIndexes rs reviewer cat \<inter> {0..<int (length qs)}"
proof -
  let ?S = "remoteIndexes rs reviewer cat"
  have eq: "getMissingQuestions cfg res reviewer cat qs = filter (\<lambda>i. int i \<notin> ?S) [0..<length qs]"
    using assms by (rule getMissingQuestions_Reviews)
  have 1: "sorted_wrt (<) (filter (\<lambda>i. int i \<notin> ?S) [0..<length qs])"
    by (rule sorted_wrt_filter) simp
  have 2: "distinct (filter (\<lambda>i. int i \<notin> ?S) [0..<length qs])" by simp
  have 3: "set (filter (\<lambda>i. int i \<notin> ?S) [0..<length qs]) \<subseteq> {0..<length qs}" by auto
  have "{i \<in> ?S. 0 \<le> i \<and> i < int (length qs)} = ?S \<inter> {0..<int (length qs)}" by auto
  then have 4: "int ` ({0..<length qs} - set (filter (\<lambda>i. int i \<notin> ?S) [0..<length qs]))
             = ?S \<inter> {0..<int (length qs)}"
    using complement_filter [of "length qs" ?S] by simp
  show ?thesis unfolding eq using 1 2 3 4 by blast
qed

theorem getMissingQuestions_complement_witness:
  "getReviewsFromAPI liveConfig (Response True (Json True (Array exampleRemote))) = Reviews exampleRemote
   \<and> getMissingQuestions liveConfig (Response True (Json True (Array exampleRemote)))
        ''alice'' ''food'' exampleCatalog = [2]
   \<and> int ` ({0..<length exampleCatalog} - set [2])
        = remoteIndexes exampleRemote ''alice'' ''food'' \<inter> {0..<int (length exampleCatalog)}"
proof -
  have h: "getReviewsFromAPI liveConfig (Response True (Json True (Array exampleRemote))) = Reviews exampleRemote"
    by (simp add: getReviewsFromAPI_def liveConfig_def)
  have m: "getMissingQuestions liveConfig (Response True (Json True (Array exampleRemote)))
             ''alice'' ''food'' exampleCatalog = [2]"
    unfolding getMissingQuestions_Reviews [OF h]
    by (simp add: remoteIndexes_def exampleRemote_def exampleCatalog_def mkReview_def upt_rec)
  from getMissingQuestions_complement [OF h, of "''alice''" "''food''" exampleCatalog]
  show ?thesis using h unfolding m by blast
qed

text \<open>
  A remote record whose \<open>question_index\<close> lies outside \<open>[0, N)\<close> is in the set of stored
  indexes but in no complement within \<open>[0, N)\<close>.
\<close>

theorem getMissingQuestions_complement_counterexample:
  "int ` ({0..<2} - set (getMissingQuestions liveConfig
       (Response True (Json True (Array [mkReview ''r1'' ''alice'' ''food'' ''q6'' 5 True])))
       ''alice'' ''food'' [mkQuestion ''q1'' ''food'' ''A'', mkQuestion ''q2'' ''food'' ''B'']))
   \<noteq> remoteIndexes [mkReview ''r1'' ''alice'' ''food'' ''q6'' 5 True] ''alice'' ''food''"
proof -
  have "{0..<2::nat} = {0, 1}" by auto
  then show ?thesis
    by (simp add: getMissingQuestions_def getReviewsFromAPI_def liveConfig_def mkReview_def
        remoteIndexes_def upt_rec)
qed

text \<open>
  C3. With the remote store enabled and the request failing, \<open>getReviewsFromAPI\<close> already
  resolves to the empty array, so \<open>getMissingQuestions\<close> reports every index of the question
  list as missing instead of returning the empty sequence. The same happens for an error
  status, a body that does not parse and a body without \<open>success\<close>; only a \<open>reviews\<close>
  property that is no array reaches the \<open>catch\<close> of \<open>getMissingQuestions\<close> and gives the
  empty sequence.
\<close>

theorem getMissingQuestions_unreachable:
  "getMissingQuestions liveConfig NetworkFailure ''alice'' ''food''
     [mkQuestion ''q1'' ''food'' ''A'', mkQuestion ''q2'' ''food'' ''B''] = [0, 1]
   \<and> getMissingQuestions liveConfig (Response False BadJson) ''alice'' ''food''
     [mkQuestion ''q1'' ''food'' ''A'', mkQuestion ''q2'' ''food'' ''B''] = [0, 1]
   \<and> getMissingQuestions liveConfig (Response True BadJson) ''alice'' ''food''
     [mkQuestion ''q1'' ''food'' ''A'', mkQuestion ''q2'' ''food'' ''B''] = [0, 1]
   \<and> getMissingQuestions liveConfig (Response True (Json False Falsy)) ''alice'' ''food''
     [mkQuestion ''q1'' ''food'' ''A'', mkQuestion ''q2'' ''food'' ''B''] = [0, 1]
   \<and> getMissingQuestions liveConfig (Response True (Json True NotArray)) ''alice'' ''food''
     [mkQuestion ''q1'' ''food'' ''A'', mkQuestion ''q2'' ''food'' ''B''] = []"
  by (simp add: getMissingQuestions_def getReviewsFromAPI_def liveConfig_def upt_rec)

subsection \<open>Progress markers\<close>

text \<open>
  C8. For every call of \<open>saveProgress\<close>, whatever the configuration and the outcome of the
  remote request: afterwards the local progress store holds the new marker under the key
  \<open>reviewerName__category\<close>, every other key holds what it held before, and the write to
  the local store is logged before the remote \<open>PUT\<close>, which is issued only when the remote
  store is enabled.
\<close>

theorem saveProgress_local_first:
  "map_of (getAllProgress (storage (saveProgress cfg res now reviewer cat idx w))) (progressKey reviewer cat)
     = Some \<lparr>progress_marker.reviewerName = reviewer, progress_marker.category = cat,
             progress_marker.questionIndex = idx, timestamp = now\<rparr>
   \<and> (\<forall>k. k \<noteq> progressKey reviewer cat \<longrightarrow>
          map_of (getAllProgress (storage (saveProgress cfg res now reviewer cat idx w))) k
          = map_of (getAllProgress (storage w)) k)
   \<and> effects (saveProgress cfg res now reviewer cat idx w)
       = effects w @ LocalSetItem PROGRESS_KEY # (if remoteEnabled cfg then [RemotePut reviewer cat idx] else [])"
  by (cases res) (simp_all add: saveProgress_def saveProgressToAPI_def Let_def getAllProgress_def update_conv')

theorem saveProgress_local_first_witness:
  "map_of (getAllProgress (storage (saveProgress liveConfig PutRejected ''t1'' ''alice'' ''food'' 7
       \<lparr>storage = exampleStore, effects = []\<rparr>))) ''alice__food''
     = Some \<lparr>progress_marker.reviewerName = ''alice'', progress_marker.category = ''food'',
             progress_marker.questionIndex = 7, timestamp = ''t1''\<rparr>
   \<and> map_of (getAllProgress (storage (saveProgress liveConfig PutRejected ''t1'' ''alice'' ''food'' 7
       \<lparr>storage = exampleStore, effects = []\<rparr>))) ''bob__food''
     = Some \<lparr>progress_marker.reviewerName = ''bob'', progress_marker.category = ''food'',
             progress_marker.questionIndex = 2, timestamp = ''t0''\<rparr>
   \<and> effects (saveProgress liveConfig PutRejected ''t1'' ''alice'' ''food'' 7
       \<lparr>storage = exampleStore, effects = []\<rparr>)
     = [LocalSetItem PROGRESS_KEY, RemotePut ''alice'' ''food'' 7]"
  using saveProgress_local_first [of liveConfig PutRejected "''t1''" "''alice''" "''food''" 7
      "\<lparr>storage = exampleStore, effects = []\<rparr>"]
  by (simp add: progressKey_def remoteEnabled_def liveConfig_def getAllProgress_def exampleStore_def)


subsection \<open>Submitting an answer\<close>

lemma findIndex_less: "findIndex p xs = Some i \<Longrightarrow> i < length xs \<and> p (xs ! i)"
  by (induction xs arbitrary: i) (auto split: if_splits)

lemma renderChoices_index:
  assumes "k < length choices"
  shows "\<exists>idx. correctAnswerIndex (renderChoices choices ans app) = Some idx \<and> idx < length choices
          \<and> choiceButtons (renderChoices choices ans app) = choices
          \<and> selectedAnswer (renderChoices choices ans app) = selectedAnswer app
          \<and> questions (renderChoices choices ans app) = questions app
          \<and> currentIndex (renderChoices choices ans app) = currentIndex app"
  using assms
  by (cases "findIndex (\<lambda>c. Some c = ans) choices")
     (auto simp: renderChoices_def Let_def dest: findIndex_less)

lemma renderChoices_correctAnswerIndex:
  "correctAnswerIndex (renderChoices choices ans app) = correctAnswerIndex (renderChoices choices ans app')"
  by (simp add: renderChoices_def Let_def)

text \<open>
  C7 (defect of the code). For every question and every choice of it that is selected,
  submitting stores exactly one new record \<open>R\<close>: its answer is the text of the selected
  choice, its correct answer is the text of the choice with the index \<open>idx\<close> that
  \<open>renderChoices\<close> resolved, and its \<open>is_correct\<close> says whether the selected index is
  \<open>idx\<close>. So \<open>is_correct\<close> implies that the two texts are equal, and when the choice texts
  of the question are pairwise distinct \<open>is_correct\<close> is true if and only if the texts are
  equal, as claimed. With the choices \<open>a, a, b, c\<close> and the answer \<open>a\<close> the resolved index
  is 0, and selecting the choice with index 1 stores equal texts with \<open>is_correct = false\<close>.
\<close>

theorem submitAnswer_isCorrect:
  assumes "currentIndex app < length (questions app)"
    and "k < length (choice (questions app ! currentIndex app))"
  shows "(\<exists>app' R idx. answerQuestion freshId k (app, st)
             = Inr (app', st\<lparr>review_results := Parsed (getAllResults st @ [R])\<rparr>)
          \<and> correctAnswerIndex
               (renderChoices (choice (questions app ! currentIndex app))
                  (quiz_question.answer (questions app ! currentIndex app)) app) = Some idx
          \<and> idx < length (choice (questions app ! currentIndex app))
          \<and> review.answer R = Some (choice (questions app ! currentIndex app) ! k)
          \<and> correct_answer R = choice (questions app ! currentIndex app) ! idx
          \<and> review.is_correct R = Some (k = idx)
          \<and> (review.is_correct R = Some True \<longrightarrow> review.answer R = Some (correct_answer R))
          \<and> (distinct (choice (questions app ! currentIndex app)) \<longrightarrow>
               (review.is_correct R = Some True \<longleftrightarrow> review.answer R = Some (correct_answer R))))
       \<and> storedAfter (answerQuestion ''id1'' 1 (dupApp, emptyStore)) = [dupRecord]
       \<and> review.is_correct dupRecord = Some False
       \<and> review.answer dupRecord = Some (correct_answer dupRecord)"
proof -
  let ?q = "questions app ! currentIndex app"
  let ?app0 = "app\<lparr>selectedAnswer := None, currentReviewId := None\<rparr>"
  let ?app1 = "renderChoices (choice ?q) (quiz_question.answer ?q) ?app0"
  have show_eq: "showQuestion app = Inr ?app1"
    using assms(1) by (simp add: showQuestion_def Let_def)
  obtain idx where idx: "correctAnswerIndex ?app1 = Some idx" "idx < length (choice ?q)"
    and btn: "choiceButtons ?app1 = choice ?q"
    and qs: "questions ?app1 = questions app" "currentIndex ?app1 = currentIndex app"
    using renderChoices_index [OF assms(2), of "quiz_question.answer ?q" ?app0] by auto
  have idx': "correctAnswerIndex (renderChoices (choice ?q) (quiz_question.answer ?q) app) = Some idx"
    using idx(1) renderChoices_correctAnswerIndex [of "choice ?q" "quiz_question.answer ?q" app ?app0]
    by simp
  let ?R = "\<lparr>review_id = freshId, question_id = Some (questionID ?q), review.questionId = None,
             question_index = int (currentIndex app), review.category = quiz_question.category ?q,
             reviewer_name = Some (quiz_app.reviewerName ?app1), review.reviewerName = None,
             review.answer = Some (choice ?q ! k), correct_answer = choice ?q ! idx,
             review.is_correct = Some (k = idx), review.isCorrect = None, review.comment = ''''\<rparr>"
  have run: "answerQuestion freshId k (app, st)
          = Inr (selectAnswer k ?app1\<lparr>currentReviewId := Some freshId\<rparr>,
                 st\<lparr>review_results := Parsed (getAllResults st @ [?R])\<rparr>)"
    using assms idx btn qs
    by (simp add: answerQuestion_def show_eq submitAnswer_def selectAnswer_def saveResult_def Let_def)
  have inj: "distinct (choice ?q) \<longrightarrow> choice ?q ! k = choice ?q ! idx \<longrightarrow> k = idx"
    using assms(2) idx(2) by (auto simp: nth_eq_iff_index_eq)
  have general: "\<exists>app' R idx. answerQuestion freshId k (app, st)
             = Inr (app', st\<lparr>review_results := Parsed (getAllResults st @ [R])\<rparr>)
          \<and> correctAnswerIndex (renderChoices (choice ?q) (quiz_question.answer ?q) app) = Some idx
          \<and> idx < length (choice ?q)
          \<and> review.answer R = Some (choice ?q ! k)
          \<and> correct_answer R = choice ?q ! idx
          \<and> review.is_correct R = Some (k = idx)
          \<and> (review.is_correct R = Some True \<longrightarrow> review.answer R = Some (correct_answer R))
          \<and> (distinct (choice ?q) \<longrightarrow>
               (review.is_correct R = Some True \<longleftrightarrow> review.answer R = Some (correct_answer R)))"
    apply (rule exI [where x = "selectAnswer k ?app1\<lparr>currentReviewId := Some freshId\<rparr>"])
    apply (rule exI [where x = ?R])
    apply (rule exI [where x = idx])
    using run idx' idx(2) inj by auto
  have failing: "storedAfter (answerQuestion ''id1'' 1 (dupApp, emptyStore)) = [dupRecord]
       \<and> review.is_correct dupRecord = Some False
       \<and> review.answer dupRecord = Some (correct_answer dupRecord)"
    by (simp add: storedAfter_def answerQuestion_def showQuestion_def renderChoices_def
        selectAnswer_def submitAnswer_def saveResult_def getAllResults_def truthy_def
        dupApp_def dupQuestion_def dupRecord_def emptyStore_def Let_def)
  show ?thesis using general failing by blast
qed

theorem submitAnswer_isCorrect_witness:
  "currentIndex (dupApp\<lparr>questions := exampleCatalog\<rparr>) < length (questions (dupApp\<lparr>questions := exampleCatalog\<rparr>))
   \<and> 1 < length (choice (exampleCatalog ! 0))
   \<and> distinct (choice (exampleCatalog ! 0))
   \<and> (\<exists>app' R. answerQuestion ''id1'' 1 (dupApp\<lparr>questions := exampleCatalog\<rparr>, emptyStore)
             = Inr (app', emptyStore\<lparr>review_results := Parsed (getAllResults emptyStore @ [R])\<rparr>)
          \<and> review.is_correct R = Some False
          \<and> (review.is_correct R = Some True \<longleftrightarrow> review.answer R = Some (correct_answer R)))"
proof -
  let ?app = "dupApp\<lparr>questions := exampleCatalog\<rparr>"
  have a: "currentIndex ?app < length (questions ?app)"
    by (simp add: dupApp_def exampleCatalog_def)
  have q: "questions ?app ! currentIndex ?app = exampleCatalog ! 0"
    by (simp add: dupApp_def)
  have b: "1 < length (choice (exampleCatalog ! 0))"
    by (simp add: exampleCatalog_def mkQuestion_def)
  have d: "distinct (choice (exampleCatalog ! 0))"
    by (simp add: exampleCatalog_def mkQuestion_def)
  have i: "correctAnswerIndex
             (renderChoices (choice (exampleCatalog ! 0)) (quiz_question.answer (exampleCatalog ! 0)) ?app)
           = Some 0"
    by (simp add: renderChoices_def exampleCatalog_def mkQuestion_def truthy_def Let_def)
  from submitAnswer_isCorrect [of ?app 1 "''id1''" emptyStore, THEN conjunct1]
  obtain app' R idx where r:
    "answerQuestion ''id1'' 1 (?app, emptyStore)
       = Inr (app', emptyStore\<lparr>review_results := Parsed (getAllResults emptyStore @ [R])\<rparr>)"
    "correctAnswerIndex
       (renderChoices (choice (exampleCatalog ! 0)) (quiz_question.answer (exampleCatalog ! 0)) ?app)
     = Some idx"
    "review.is_correct R = Some (1 = idx)"
    "distinct (choice (exampleCatalog ! 0)) \<longrightarrow>
       (review.is_correct R = Some True \<longleftrightarrow> review.answer R = Some (correct_answer R))"
    using a b unfolding q by blast
  have "idx = 0" using r(2) i by simp
  then have "review.is_correct R = Some False" using r(3) by simp
  then show ?thesis using a b d r(1) r(4) by blast
qed

subsection \<open>The wide export\<close>








subsection \<open>Doubles\<close>

text \<open>
  \<open>fl\<close> rounds to a nearest double: the relative error is at most \<open>2^-53\<close>. The two
  evaluations are the cases in which the double differs visibly from the exact value:
  \<open>23 / 80 * 100\<close> is a double below 28.75, shown as 28.7, and the mean of 0 and 33.3 is
  a double below 16.65, shown as 16.6.
\<close>

lemma jsPercent_23_80: "toFixed1 (jsPercent 23 80) = 287 / 10"
  by code_simp

lemma mean_0_333: "toFixed1 (fl (fl (fl (0 + fl 0) + fl (333 / 10)) / 2)) = 166 / 10"
  by code_simp

lemma round_even_near: "\<bar>of_int (round_even y) - y\<bar> \<le> 1 / 2"
proof -
  have "of_int \<lfloor>y\<rfloor> \<le> y" "y < of_int \<lfloor>y\<rfloor> + 1" by linarith+
  then show ?thesis by (auto simp: round_even_def Let_def)
qed

lemma expo_bounds:
  assumes "0 < x"
  shows "2 powi expo x \<le> x \<and> x < 2 powi (expo x + 1)"
proof -
  obtain p q where pq: "quotient_of x = (p, q)" by (cases "quotient_of x")
  then have q: "0 < q" and x: "x = of_int p / of_int q"
    using quotient_of_denom_pos quotient_of_div by auto
  have p: "0 < p" using assms q x by (simp add: zero_less_divide_iff)
  define bp bq where "bp = bitlen p" and "bq = bitlen q"
  have bp1: "1 \<le> bp" and bq1: "1 \<le> bq"
    using p q by (auto simp: bp_def bq_def bitlen_alt_def)
  have ip: "2 ^ nat (bp - 1) \<le> p" "p < 2 ^ nat bp" and iq: "2 ^ nat (bq - 1) \<le> q" "q < 2 ^ nat bq"
    using bitlen_bounds [OF p] bitlen_bounds [OF q] by (auto simp: bp_def bq_def)
  have rp: "(2::rat) powi (bp - 1) \<le> of_int p" "(of_int p :: rat) < 2 powi bp"
  proof -
    have "(of_int (2 ^ nat (bp - 1)) :: rat) \<le> of_int p" using ip(1) by (simp only: of_int_le_iff)
    then show "(2::rat) powi (bp - 1) \<le> of_int p" using bp1 by (simp add: power_int_def)
    have "(of_int p :: rat) < of_int (2 ^ nat bp)" using ip(2) by (simp only: of_int_less_iff)
    then show "(of_int p :: rat) < 2 powi bp" using bp1 by (simp add: power_int_def)
  qed
  have rq: "(2::rat) powi (bq - 1) \<le> of_int q" "(of_int q :: rat) < 2 powi bq"
  proof -
    have "(of_int (2 ^ nat (bq - 1)) :: rat) \<le> of_int q" using iq(1) by (simp only: of_int_le_iff)
    then show "(2::rat) powi (bq - 1) \<le> of_int q" using bq1 by (simp add: power_int_def)
    have "(of_int q :: rat) < of_int (2 ^ nat bq)" using iq(2) by (simp only: of_int_less_iff)
    then show "(of_int q :: rat) < 2 powi bq" using bq1 by (simp add: power_int_def)
  qed
  define d where "d = bp - bq"
  have qpos: "(0::rat) < of_int q" using q by simp
  have e: "expo x = (if of_int q * 2 powi d \<le> (of_int p :: rat) then d else d - 1)"
    by (simp add: expo_def pq Let_def d_def bp_def bq_def)
  have up: "x < 2 powi (d + 1)"
  proof -
    have "of_int p < (2::rat) powi (d + 1) * 2 powi (bq - 1)"
      using rp(2) by (simp add: power_int_add [symmetric] d_def)
    also have "\<dots> \<le> 2 powi (d + 1) * of_int q"
      using rq(1) by (intro mult_left_mono) simp_all
    finally show ?thesis using qpos by (simp add: x field_simps)
  qed
  have lo: "2 powi (d - 1) \<le> x"
  proof -
    have "(2::rat) powi (d - 1) * of_int q \<le> 2 powi (d - 1) * 2 powi bq"
      using rq(2) by (intro mult_left_mono) simp_all
    also have "\<dots> = 2 powi (bp - 1)" by (simp add: power_int_add [symmetric] d_def)
    also have "\<dots> \<le> of_int p" by (rule rp(1))
    finally show ?thesis using qpos by (simp add: x field_simps)
  qed
  show ?thesis
  proof (cases "of_int q * 2 powi d \<le> (of_int p :: rat)")
    case True
    then have "2 powi d \<le> x" using qpos by (simp add: x field_simps)
    with True up e show ?thesis by simp
  next
    case False
    then have "x < 2 powi d" using qpos by (simp add: x field_simps)
    with False lo e show ?thesis by simp
  qed
qed

lemma fl_0 [simp]: "fl 0 = 0"
  by (simp add: fl_def)

lemma fl_error:
  assumes "0 < x"
  shows "\<bar>fl x - x\<bar> \<le> x / 2 ^ 53"
proof -
  define e where "e = expo x"
  define y where "y = x * 2 powi (52 - e)"
  have b: "2 powi e \<le> x" using expo_bounds [OF assms] by (simp add: e_def)
  have p: "(2::rat) powi (52 - e) * 2 powi (e - 52) = 1"
    by (simp add: power_int_add [symmetric])
  have x: "x = y * 2 powi (e - 52)"
    using p by (simp add: y_def mult.assoc)
  have f: "fl x = of_int (round_even y) * 2 powi (e - 52)"
    using assms by (simp add: fl_def y_def e_def)
  have "fl x - x = (of_int (round_even y) - y) * 2 powi (e - 52)"
    using x f by (simp only: left_diff_distrib)
  hence "\<bar>fl x - x\<bar> = \<bar>of_int (round_even y) - y\<bar> * 2 powi (e - 52)"
    by (simp add: abs_mult)
  also have "\<dots> \<le> 1 / 2 * 2 powi (e - 52)"
    by (intro mult_right_mono round_even_near) simp
  also have "\<dots> = 2 powi e / 2 ^ 53"
    using power_int_add [of "2::rat" "e - 52" 52] by simp
  also have "\<dots> \<le> x / 2 ^ 53"
    using b by (simp add: divide_right_mono)
  finally show ?thesis .
qed

lemma fl_nonneg: "0 \<le> x \<Longrightarrow> 0 \<le> fl x"
proof (cases "x = 0")
  case False
  assume "0 \<le> x"
  with False have p: "0 < x" by simp
  have "x / 2 ^ 53 \<le> x" using p by (simp add: field_simps)
  with fl_error [OF p] show ?thesis by linarith
qed simp

lemma fl_error0:
  assumes "0 \<le> x"
  shows "\<bar>fl x - x\<bar> \<le> x / 2 ^ 53"
proof (cases "x = 0")
  case False
  with assms have "0 < x" by simp
  then show ?thesis by (rule fl_error)
qed simp

lemma toFixed1_near: "\<bar>toFixed1 x - x\<bar> \<le> 1 / 20"
proof -
  define n where "n = \<lfloor>x * 10 + 1 / 2\<rfloor>"
  have a: "of_int n \<le> x * 10 + 1 / 2" unfolding n_def by (rule of_int_floor_le)
  have b: "x * 10 + 1 / 2 < of_int n + 1" unfolding n_def by linarith
  have t: "toFixed1 x = of_int n / 10"
    by (simp add: toFixed1_def n_def)
  show ?thesis unfolding t using a b by linarith
qed

lemma toFixed1_tenths: "toFixed1 x * 10 \<in> \<int>"
  by (simp add: toFixed1_def)

lemma toFixed1_range:
  assumes "0 \<le> y" "y \<le> 100 + 1 / 1000"
  shows "0 \<le> toFixed1 y \<and> toFixed1 y \<le> 100"
proof -
  have "0 \<le> \<lfloor>y * 10 + 1 / 2\<rfloor>" using assms(1) by simp
  moreover have "\<lfloor>y * 10 + 1 / 2\<rfloor> < 1001"
    using assms(2) by (simp add: floor_less_iff)
  ultimately show ?thesis by (simp add: toFixed1_def)
qed

text \<open>Rounding to the nearest tenth of a fraction whose tenfold has the denominator \<open>d\<close>.\<close>

lemma toFixed1_exact_round:
  assumes d: "0 < d"
    and y: "\<bar>y - of_int K / (10 * of_int d)\<bar> \<le> e"
    and e: "20 * of_int d * e < 1"
  shows "\<bar>toFixed1 y - of_int K / (10 * of_int d)\<bar> \<le> 1 / 20"
proof -
  define D :: rat where "D = of_int d"
  define m :: rat where "m = of_int K / (10 * D)"
  define n where "n = \<lfloor>y * 10 + 1 / 2\<rfloor>"
  define J where "J = 2 * d * n - 2 * K"
  have D: "0 < D" using d by (simp add: D_def)
  have n1: "of_int n \<le> y * 10 + 1 / 2" unfolding n_def by (rule of_int_floor_le)
  have n2: "y * 10 + 1 / 2 < of_int n + 1" unfolding n_def by linarith
  have ym: "y - m \<le> e" "m - y \<le> e" using y by (simp_all add: m_def D_def abs_le_iff)
  have J: "of_int J = 2 * D * (of_int n - 10 * m)"
    using D by (simp add: J_def m_def D_def field_simps)
  have e': "20 * D * e < 1" using e by (simp add: D_def)
  have "of_int n - 10 * m \<le> 10 * e + 1 / 2" using n1 ym by linarith
  then have "2 * D * (of_int n - 10 * m) \<le> 2 * D * (10 * e + 1 / 2)"
    using D by (intro mult_left_mono) simp_all
  also have "\<dots> = 20 * D * e + D" by (simp add: algebra_simps)
  finally have "of_int J < D + 1" using e' J by linarith
  then have "of_int J < (of_int (d + 1) :: rat)" by (simp add: D_def)
  then have up: "J \<le> d" by simp
  have "- (10 * e + 1 / 2) < of_int n - 10 * m" using n2 ym by linarith
  then have "2 * D * (- (10 * e + 1 / 2)) < 2 * D * (of_int n - 10 * m)"
    using D by (intro mult_strict_left_mono) simp_all
  moreover have "2 * D * (- (10 * e + 1 / 2)) = - (20 * D * e) - D" by (simp add: algebra_simps)
  ultimately have "- D - 1 < of_int J" using e' J by linarith
  then have "(of_int (- d - 1) :: rat) < of_int J" by (simp add: D_def)
  then have lo: "- d \<le> J" by simp
  have "(of_int J :: rat) \<le> of_int d" "(of_int (- d) :: rat) \<le> of_int J"
    using up lo by (simp_all only: of_int_le_iff)
  then have "\<bar>(of_int J :: rat)\<bar> \<le> D"
    unfolding D_def by simp
  then have "\<bar>2 * D * (of_int n - 10 * m)\<bar> \<le> D" by (simp only: J)
  then have "2 * D * \<bar>of_int n - 10 * m\<bar> \<le> D"
    using D by (simp add: abs_mult)
  then have "\<bar>of_int n - 10 * m\<bar> \<le> 1 / 2"
    using D by (simp add: field_simps)
  then have "\<bar>of_int n / 10 - m\<bar> \<le> 1 / 20" by linarith
  then show ?thesis by (simp add: toFixed1_def n_def m_def D_def)
qed

lemma jsPercent_bounds:
  assumes "0 < t" "c \<le> t"
  shows "0 \<le> jsPercent c t \<and> jsPercent c t \<le> 100 + 1 / 1000
       \<and> \<bar>jsPercent c t - of_nat c / of_nat t * 100\<bar> \<le> 300 / 2 ^ 53"
proof -
  define q :: rat where "q = of_nat c / of_nat t"
  define q1 where "q1 = fl q"
  define z where "z = q1 * 100"
  have q: "0 \<le> q" "q \<le> 1" using assms by (simp_all add: q_def)
  have q1: "0 \<le> q1" "\<bar>q1 - q\<bar> \<le> 1 / 2 ^ 53"
  proof -
    show "0 \<le> q1" using q(1) by (simp add: q1_def fl_nonneg)
    have "\<bar>q1 - q\<bar> \<le> q / 2 ^ 53" unfolding q1_def using q(1) by (rule fl_error0)
    also have "\<dots> \<le> 1 / 2 ^ 53" using q(2) by (simp add: divide_right_mono)
    finally show "\<bar>q1 - q\<bar> \<le> 1 / 2 ^ 53" .
  qed
  have u: "(1::rat) / 2 ^ 53 \<le> 1 / 1000000" "(200::rat) / 2 ^ 53 \<le> 1 / 1000000"
    by simp_all
  have z: "0 \<le> z" "z \<le> 200" using q q1 u unfolding z_def by linarith+
  have "\<bar>fl z - z\<bar> \<le> z / 2 ^ 53" using z(1) by (rule fl_error0)
  also have "\<dots> \<le> 200 / 2 ^ 53" using z(2) by (simp add: divide_right_mono)
  finally have y: "\<bar>fl z - z\<bar> \<le> 200 / 2 ^ 53" .
  have j: "jsPercent c t = fl z" by (simp add: jsPercent_def z_def q1_def q_def)
  have "0 \<le> fl z" using z(1) by (rule fl_nonneg)
  moreover have "\<bar>fl z - q * 100\<bar> \<le> 300 / 2 ^ 53"
  proof -
    define w :: rat where "w = 1 / 2 ^ 53"
    have "\<bar>q1 - q\<bar> \<le> w" "\<bar>fl z - z\<bar> \<le> 200 * w" "300 / 2 ^ 53 = 300 * w"
      using q1(2) y by (simp_all add: w_def)
    then show ?thesis unfolding z_def by linarith
  qed
  moreover have "fl z \<le> 100 + 1 / 1000"
    using y q1(2) q(2) u unfolding z_def by linarith
  ultimately show ?thesis unfolding j q_def by simp
qed

lemma toFixed1_jsPercent_near:
  assumes "0 < t" "c \<le> t" "t < 2 ^ 40"
  shows "\<bar>toFixed1 (jsPercent c t) - of_nat c / of_nat t * 100\<bar> \<le> 1 / 20"
proof -
  have x: "of_nat c / of_nat t * 100 = (of_int (1000 * int c) :: rat) / (10 * of_int (int t))"
    using assms(1) by simp
  have "(of_nat t :: rat) < 2 ^ 40" using assms(3)
    by (metis of_nat_less_iff of_nat_numeral of_nat_power)
  then have e: "20 * of_int (int t) * (300 / 2 ^ 53) < (1::rat)" by simp
  have y: "\<bar>jsPercent c t - of_int (1000 * int c) / (10 * of_int (int t))\<bar> \<le> 300 / 2 ^ 53"
    using jsPercent_bounds [OF assms(1,2)] unfolding x by simp
  show ?thesis
    unfolding x using toFixed1_exact_round [OF _ y e] assms(1) by simp
qed

lemma toFixed1_jsPercent_range:
  assumes "0 < t" "c \<le> t"
  shows "0 \<le> toFixed1 (jsPercent c t) \<and> toFixed1 (jsPercent c t) \<le> 100"
  using jsPercent_bounds [OF assms] by (simp add: toFixed1_range)

text \<open>\<open>parseFloat\<close> keeps the order of one-decimal numbers between 0 and 100.\<close>

lemma fl_tenths_strict:
  assumes "a * 10 \<in> \<int>" "b * 10 \<in> \<int>" "0 \<le> a" "a < b" "b \<le> 100"
  shows "fl a < fl b"
proof -
  obtain i j :: int where i: "a * 10 = of_int i" and j: "b * 10 = of_int j"
    using assms(1,2) by (auto elim!: Ints_cases)
  have "(of_int i :: rat) < of_int j" using assms(4) i j by linarith
  then have "i + 1 \<le> j" by simp
  then have "(of_int (i + 1) :: rat) \<le> of_int j" by (simp only: of_int_le_iff)
  then have gap: "a + 1 / 10 \<le> b" using i j by simp
  have "\<bar>fl a - a\<bar> \<le> a / 2 ^ 53" using assms(3) by (rule fl_error0)
  also have "\<dots> \<le> 100 / 2 ^ 53" using assms(4,5) by (simp add: divide_right_mono)
  finally have ea: "\<bar>fl a - a\<bar> \<le> 100 / 2 ^ 53" .
  have "\<bar>fl b - b\<bar> \<le> b / 2 ^ 53" using assms(3,4) by (intro fl_error0) simp
  also have "\<dots> \<le> 100 / 2 ^ 53" using assms(5) by (simp add: divide_right_mono)
  finally have eb: "\<bar>fl b - b\<bar> \<le> 100 / 2 ^ 53" .
  have "(100::rat) / 2 ^ 53 \<le> 1 / 1000" by simp
  then show ?thesis using ea eb gap by linarith
qed

text \<open>The error of a sum accumulated in doubles, for at most a million terms between 0 and 101.\<close>

lemma foldl_fl_error:
  assumes "\<forall>x\<in>set xs. 0 \<le> x \<and> x \<le> 101" "length xs \<le> 1000000"
  shows "0 \<le> foldl (\<lambda>s x. fl (s + x)) 0 xs
       \<and> 0 \<le> sum_list xs \<and> sum_list xs \<le> 101 * of_nat (length xs)
       \<and> \<bar>foldl (\<lambda>s x. fl (s + x)) 0 xs - sum_list xs\<bar> \<le> of_nat (length xs) * (101000001 / 2 ^ 53)"
  using assms
proof (induction xs rule: rev_induct)
  case Nil
  show ?case by simp
next
  case (snoc x xs)
  define s where "s = foldl (\<lambda>s x. fl (s + x)) 0 xs"
  define A where "A = sum_list xs"
  define k :: rat where "k = of_nat (length xs)"
  define C :: rat where "C = 101000001 / 2 ^ 53"
  have x: "0 \<le> x" "x \<le> 101" using snoc.prems(1) by simp_all
  have k: "0 \<le> k" "k + 1 \<le> 1000000"
  proof -
    show "0 \<le> k" by (simp add: k_def)
    have "length xs + 1 \<le> 1000000" using snoc.prems(2) by simp
    then have "(of_nat (length xs + 1) :: rat) \<le> of_nat 1000000" by (simp only: of_nat_le_iff)
    then show "k + 1 \<le> 1000000" by (simp add: k_def)
  qed
  have ih: "0 \<le> s" "0 \<le> A" "A \<le> 101 * k" "\<bar>s - A\<bar> \<le> k * C"
    using snoc.IH snoc.prems by (simp_all add: s_def A_def k_def C_def)
  have C: "0 \<le> C" "1000000 * C \<le> 1" by (simp_all add: C_def)
  have "k * C \<le> 1000000 * C" using k C(1) by (intro mult_right_mono) simp_all
  then have kC: "k * C \<le> 1" using C(2) by linarith
  define z where "z = s + x"
  have z: "0 \<le> z" "z \<le> 101000001" using ih x kC k unfolding z_def by linarith+
  have "\<bar>fl z - z\<bar> \<le> z / 2 ^ 53" using z(1) by (rule fl_error0)
  also have "\<dots> \<le> C" unfolding C_def using z(2) by (simp add: divide_right_mono)
  finally have e: "\<bar>fl z - z\<bar> \<le> C" .
  have f: "foldl (\<lambda>s x. fl (s + x)) 0 (xs @ [x]) = fl z" by (simp add: z_def s_def)
  have l: "(of_nat (length (xs @ [x])) :: rat) = k + 1" by (simp add: k_def)
  have su: "sum_list (xs @ [x]) = A + x" by (simp add: A_def)
  have "0 \<le> fl z" using z(1) by (rule fl_nonneg)
  moreover have "0 \<le> A + x" using ih(2) x(1) by linarith
  moreover have "A + x \<le> 101 * (k + 1)" using ih(3) x(2) by (simp add: algebra_simps)
  moreover have "\<bar>fl z - (A + x)\<bar> \<le> (k + 1) * C"
  proof -
    have "(k + 1) * C = k * C + C" by (simp add: algebra_simps)
    then show ?thesis using e ih(4) unfolding z_def by linarith
  qed
  ultimately show ?case unfolding f l su C_def by simp
qed

lemma mean_fl_error:
  assumes "\<forall>x\<in>set xs. 0 \<le> x \<and> x \<le> 101" "length xs \<le> 1000000" "xs \<noteq> []"
  shows "\<bar>fl (foldl (\<lambda>s x. fl (s + x)) 0 xs / of_nat (length xs)) - sum_list xs / of_nat (length xs)\<bar>
           \<le> 101000103 / 2 ^ 53"
proof -
  define S where "S = foldl (\<lambda>s x. fl (s + x)) 0 xs"
  define A where "A = sum_list xs"
  define n :: rat where "n = of_nat (length xs)"
  define C :: rat where "C = 101000001 / 2 ^ 53"
  define w :: rat where "w = 1 / 2 ^ 53"
  have n: "1 \<le> n" using assms(3) by (cases xs) (simp_all add: n_def)
  have b: "0 \<le> S" "0 \<le> A" "A \<le> 101 * n" "\<bar>S - A\<bar> \<le> n * C"
    using foldl_fl_error [OF assms(1,2)] by (simp_all add: S_def A_def n_def C_def)
  have C: "0 \<le> C" "C \<le> 1" "C = 101000001 * w" by (simp_all add: C_def w_def)
  have "n * C \<le> n * 1" using C n by (intro mult_left_mono) simp_all
  then have "S \<le> 102 * n" using b by linarith
  then have q: "0 \<le> S / n" "S / n \<le> 102" using n b(1) by (simp_all add: field_simps)
  have "\<bar>fl (S / n) - S / n\<bar> \<le> (S / n) / 2 ^ 53" using q(1) by (rule fl_error0)
  also have "\<dots> \<le> 102 * w" unfolding w_def using q(2) by (simp add: divide_right_mono)
  finally have e1: "\<bar>fl (S / n) - S / n\<bar> \<le> 102 * w" .
  have "\<bar>S / n - A / n\<bar> = \<bar>S - A\<bar> / n" using n by (simp add: diff_divide_distrib [symmetric])
  also have "\<dots> \<le> C" using b(4) n by (simp add: field_simps)
  finally have e2: "\<bar>S / n - A / n\<bar> \<le> C" .
  have "\<bar>fl (S / n) - A / n\<bar> \<le> 101000103 * w" using e1 e2 C(3) by linarith
  then show ?thesis by (simp add: S_def A_def n_def w_def)
qed



text \<open>The mean of doubles that are close to exact values, printed with one decimal.\<close>

lemma mean_doubles_near:
  assumes el: "\<forall>v\<in>set vs. 0 \<le> f v \<and> f v \<le> 101 \<and> \<bar>f v - g v\<bar> \<le> 300 / 2 ^ 53"
    and len: "length vs \<le> 1000000" and ne: "vs \<noteq> []"
  shows "\<bar>toFixed1 (fl (foldl (\<lambda>s x. fl (s + x)) 0 (map f vs) / of_nat (length vs)))
           - sum_list (map g vs) / of_nat (length vs)\<bar> \<le> 1 / 20 + 1 / 10000000"
proof -
  define w :: rat where "w = 1 / 2 ^ 53"
  define n :: rat where "n = of_nat (length vs)"
  define y where "y = fl (foldl (\<lambda>s x. fl (s + x)) 0 (map f vs) / n)"
  have w: "101000403 * w \<le> 1 / 10000000" by (simp add: w_def)
  have n: "1 \<le> n" using ne by (cases vs) (simp_all add: n_def)
  have "\<bar>sum_list (map f vs) - sum_list (map g vs)\<bar> \<le> of_nat (length vs) * (300 * w)"
    using el
  proof (induction vs)
    case Nil
    show ?case by simp
  next
    case (Cons v vs)
    have "\<bar>f v - g v\<bar> \<le> 300 * w" using Cons.prems by (simp add: w_def)
    moreover have "\<bar>sum_list (map f vs) - sum_list (map g vs)\<bar> \<le> of_nat (length vs) * (300 * w)"
      using Cons by simp
    moreover have "of_nat (length (v # vs)) * (300 * w) = of_nat (length vs) * (300 * w) + 300 * w"
      by (simp add: algebra_simps)
    moreover have "sum_list (map f (v # vs)) - sum_list (map g (v # vs))
                     = (f v - g v) + (sum_list (map f vs) - sum_list (map g vs))"
      by simp
    ultimately show ?case by linarith
  qed
  then have "\<bar>sum_list (map f vs) - sum_list (map g vs)\<bar> \<le> 300 * w * n"
    by (simp add: n_def mult.commute)
  then have "\<bar>sum_list (map f vs) - sum_list (map g vs)\<bar> / n \<le> 300 * w"
    using n by (subst pos_divide_le_eq) simp_all
  then have d1: "\<bar>sum_list (map f vs) / n - sum_list (map g vs) / n\<bar> \<le> 300 * w"
    using n by (simp add: diff_divide_distrib [symmetric])
  have "\<bar>fl (foldl (\<lambda>s x. fl (s + x)) 0 (map f vs) / of_nat (length (map f vs)))
          - sum_list (map f vs) / of_nat (length (map f vs))\<bar> \<le> 101000103 / 2 ^ 53"
    using el len ne by (intro mean_fl_error) auto
  then have d2: "\<bar>y - sum_list (map f vs) / n\<bar> \<le> 101000103 * w"
    by (simp add: y_def n_def w_def)
  have "\<bar>toFixed1 y - y\<bar> \<le> 1 / 20" by (rule toFixed1_near)
  then have "\<bar>toFixed1 y - sum_list (map g vs) / n\<bar> \<le> 1 / 20 + 1 / 10000000"
    using d1 d2 w by linarith
  then show ?thesis by (simp only: y_def n_def)
qed

subsection \<open>By-reviewer statistics\<close>

lemma set_questionsOf:
  "set (questionsOf a rs) = questionIdOf ` {r \<in> set rs. reviewerOf r = a}"
  by (auto simp: questionsOf_def)

lemma distinct_questionsOf: "distinct (questionsOf a rs)"
  by (simp add: questionsOf_def)

lemma distinct_correctQuestionsOf: "distinct (correctQuestionsOf a rs)"
  by (simp add: correctQuestionsOf_def distinct_questionsOf)

lemma firstRecordFor_None_iff:
  "firstRecordFor a q rs = None \<longleftrightarrow> q \<notin> set (questionsOf a rs)"
  by (auto simp: firstRecordFor_def find_None_iff set_questionsOf)

lemma find_append':
  "List.find P (xs @ ys) = (case List.find P xs of Some x \<Rightarrow> Some x | None \<Rightarrow> List.find P ys)"
  by (induction xs) auto

lemma firstCorrect_snoc:
  "firstCorrect a (rs @ [r]) q =
     (if q \<in> set (questionsOf a rs) then firstCorrect a rs q
      else reviewerOf r = a \<and> questionIdOf r = q \<and> correctOf r)"
proof (cases "firstRecordFor a q rs")
  case None
  then have "q \<notin> set (questionsOf a rs)" by (simp add: firstRecordFor_None_iff)
  with None show ?thesis
    by (auto simp: firstCorrect_def firstRecordFor_def find_append')
next
  case (Some x)
  then have "q \<in> set (questionsOf a rs)"
    using firstRecordFor_None_iff [of a q rs] by auto
  with Some show ?thesis
    by (auto simp: firstCorrect_def firstRecordFor_def find_append')
qed

lemma set_questionsOf_snoc:
  "set (questionsOf a (rs @ [r])) =
     (if reviewerOf r = a then insert (questionIdOf r) (set (questionsOf a rs))
      else set (questionsOf a rs))"
  by (auto simp: set_questionsOf)

lemma set_correctQuestionsOf_snoc:
  "set (correctQuestionsOf a (rs @ [r])) =
     (if reviewerOf r = a \<and> questionIdOf r \<notin> set (questionsOf a rs) \<and> correctOf r
      then insert (questionIdOf r) (set (correctQuestionsOf a rs))
      else set (correctQuestionsOf a rs))"
  by (auto simp: correctQuestionsOf_def firstCorrect_snoc set_questionsOf_snoc split: if_splits)

lemma correctQuestionsOf_subset: "set (correctQuestionsOf a rs) \<subseteq> set (questionsOf a rs)"
  by (auto simp: correctQuestionsOf_def)

lemma accState_card:
  "accState a rs =
     \<lparr>reviewer_acc.correct = card (set (correctQuestionsOf a rs)),
      reviewer_acc.total = card (set (questionsOf a rs)),
      uniqueQuestions = set (questionsOf a rs),
      correctQuestions = set (correctQuestionsOf a rs)\<rparr>"
  by (simp add: accState_def distinct_card distinct_questionsOf distinct_correctQuestionsOf)

lemma accState_snoc:
  "accState a (rs @ [r]) =
     (if reviewerOf r = a \<and> questionIdOf r \<notin> uniqueQuestions (accState a rs) then
        (if correctOf r
         then (accState a rs)\<lparr>reviewer_acc.total := reviewer_acc.total (accState a rs) + 1,
                 uniqueQuestions := insert (questionIdOf r) (uniqueQuestions (accState a rs)),
                 reviewer_acc.correct := reviewer_acc.correct (accState a rs) + 1,
                 correctQuestions := insert (questionIdOf r) (correctQuestions (accState a rs))\<rparr>
         else (accState a rs)\<lparr>reviewer_acc.total := reviewer_acc.total (accState a rs) + 1,
                 uniqueQuestions := insert (questionIdOf r) (uniqueQuestions (accState a rs))\<rparr>)
      else accState a rs)"
proof -
  have "questionIdOf r \<notin> set (questionsOf a rs) \<Longrightarrow> questionIdOf r \<notin> set (correctQuestionsOf a rs)"
    using correctQuestionsOf_subset [of a rs] by auto
  then show ?thesis
    unfolding accState_card
    by (simp add: set_correctQuestionsOf_snoc set_questionsOf_snoc insert_absorb)
qed

lemma inherited_constructor: "inherited ''constructor''"
  by (simp add: inherited_def inheritedKeys_def)

lemma forEach_append:
  "forEach f (xs @ ys) s = (case forEach f xs s of Inl e \<Rightarrow> Inl e | Inr s' \<Rightarrow> forEach f ys s')"
  by (induction xs arbitrary: s) (simp_all split: sum.splits)

lemma forEach_snoc:
  "forEach f (xs @ [x]) s = (case forEach f xs s of Inl e \<Rightarrow> Inl e | Inr s' \<Rightarrow> f x s')"
  by (simp add: forEach_append split: sum.splits)

lemma byReviewer_step_inherited:
  "inherited (reviewerOf r) \<Longrightarrow> map_of stats (reviewerOf r) = None \<Longrightarrow> byReviewer_step r stats = Inl TypeError"
  by (simp add: byReviewer_step_def absent_def Let_def)

lemma byReviewer_step_own:
  assumes "\<not> inherited (reviewerOf r)"
  shows "byReviewer_step r stats =
     Inr (let s = (case map_of stats (reviewerOf r) of
                      None \<Rightarrow> \<lparr>reviewer_acc.correct = 0, reviewer_acc.total = 0,
                                uniqueQuestions = {}, correctQuestions = {}\<rparr>
                    | Some s \<Rightarrow> s)
          in AList.update (reviewerOf r)
               (if questionIdOf r \<notin> uniqueQuestions s then
                  (if correctOf r
                   then s\<lparr>reviewer_acc.total := reviewer_acc.total s + 1,
                          uniqueQuestions := insert (questionIdOf r) (uniqueQuestions s),
                          reviewer_acc.correct := reviewer_acc.correct s + 1,
                          correctQuestions := insert (questionIdOf r) (correctQuestions s)\<rparr>
                   else s\<lparr>reviewer_acc.total := reviewer_acc.total s + 1,
                          uniqueQuestions := insert (questionIdOf r) (uniqueQuestions s)\<rparr>)
                else s)
               stats)"
proof (cases "map_of stats (reviewerOf r)")
  case None
  then show ?thesis using assms
    by (simp add: byReviewer_step_def absent_def Let_def update_conv' update_last)
next
  case (Some s)
  then show ?thesis using assms
    by (simp add: byReviewer_step_def absent_def Let_def update_triv)
qed

lemma accState_empty:
  "questionsOf a rs = [] \<Longrightarrow>
   accState a rs = \<lparr>reviewer_acc.correct = 0, reviewer_acc.total = 0,
                     uniqueQuestions = {}, correctQuestions = {}\<rparr>"
  by (simp add: accState_def correctQuestionsOf_def)


lemma byReviewer_forEach:
  assumes "\<forall>r\<in>set rs. \<not> inherited (reviewerOf r)"
  shows "\<exists>stats. forEach byReviewer_step rs [] = Inr stats
           \<and> distinct (map fst stats)
           \<and> (\<forall>a. map_of stats a = (if questionsOf a rs = [] then None else Some (accState a rs)))"
  using assms
proof (induction rs rule: rev_induct)
  case Nil
  show ?case by (simp add: questionsOf_def)
next
  case (snoc r rs)
  then obtain stats where st: "forEach byReviewer_step rs [] = Inr stats"
    and dist: "distinct (map fst stats)"
    and look: "\<And>a. map_of stats a = (if questionsOf a rs = [] then None else Some (accState a rs))"
    by auto
  have own: "\<not> inherited (reviewerOf r)" using snoc.prems by simp
  let ?s = "case map_of stats (reviewerOf r) of
                      None \<Rightarrow> \<lparr>reviewer_acc.correct = 0, reviewer_acc.total = 0,
                                uniqueQuestions = {}, correctQuestions = {}\<rparr>
                    | Some s \<Rightarrow> s"
  have cur: "?s = accState (reviewerOf r) rs"
    by (simp add: look accState_empty)
  have step: "forEach byReviewer_step (rs @ [r]) [] = byReviewer_step r stats"
    by (simp add: forEach_snoc st)
  have "map_of (projr (byReviewer_step r stats)) a =
          (if questionsOf a (rs @ [r]) = [] then None else Some (accState a (rs @ [r])))" for a
  proof (cases "reviewerOf r = a")
    case False
    moreover have "questionsOf a (rs @ [r]) = questionsOf a rs"
      using False by (simp add: questionsOf_def)
    ultimately show ?thesis
      unfolding byReviewer_step_own [OF own] Let_def
      by (simp add: update_conv' look accState_snoc)
  next
    case True
    have ne: "questionsOf a (rs @ [r]) \<noteq> []"
      using True set_questionsOf_snoc [of a rs r] by (metis empty_iff insertI1 list.set(1))
    show ?thesis
      unfolding byReviewer_step_own [OF own] Let_def cur
      using True ne by (simp add: update_conv' accState_snoc)
  qed
  moreover have "byReviewer_step r stats = Inr (projr (byReviewer_step r stats))"
    unfolding byReviewer_step_own [OF own] by simp
  moreover have "distinct (map fst (projr (byReviewer_step r stats)))"
    unfolding byReviewer_step_own [OF own] Let_def using dist by (simp add: distinct_update)
  ultimately show ?case unfolding step by metis
qed

lemma byReviewer_forEach_error:
  assumes "\<exists>r\<in>set rs. inherited (reviewerOf r)"
  shows "forEach byReviewer_step rs [] = Inl TypeError"
proof -
  from assms obtain xs r ys where rs: "rs = xs @ r # ys" and r: "inherited (reviewerOf r)"
    and xs: "\<forall>x\<in>set xs. \<not> inherited (reviewerOf x)"
    using split_list_first_prop [of rs "\<lambda>r. inherited (reviewerOf r)"] by auto
  obtain stats where st: "forEach byReviewer_step xs [] = Inr stats"
    and look: "\<And>a. map_of stats a = (if questionsOf a xs = [] then None else Some (accState a xs))"
    using byReviewer_forEach [OF xs] by auto
  have "filter (\<lambda>x. reviewerOf x = reviewerOf r) xs = []"
    using xs r by (auto simp: filter_empty_conv)
  then have "questionsOf (reviewerOf r) xs = []" by (simp add: questionsOf_def)
  then have "map_of stats (reviewerOf r) = None" by (simp add: look)
  then have "byReviewer_step r stats = Inl TypeError" using r by (rule byReviewer_step_inherited [rotated])
  then show ?thesis unfolding rs by (simp add: forEach_append st)
qed

lemma map_of_map_snd:
  "map_of (map (\<lambda>kv. (fst kv, f (snd kv))) xs) k = map_option f (map_of xs k)"
  by (induction xs) auto


lemma calculateByReviewer_lookup:
  assumes "calculateByReviewer rs = Inr st"
  shows "map_of st reviewer =
     (if questionsOf reviewer rs = [] then None
      else Some \<lparr>reviewer_stat.correct = length (correctQuestionsOf reviewer rs),
                 reviewer_stat.total = length (questionsOf reviewer rs),
                 reviewer_stat.accuracy =
                   toFixed1 (jsPercent (length (correctQuestionsOf reviewer rs))
                                       (length (questionsOf reviewer rs)))\<rparr>)"
proof -
  have own: "\<forall>r\<in>set rs. \<not> inherited (reviewerOf r)"
  proof (rule ccontr)
    assume "\<not> (\<forall>r\<in>set rs. \<not> inherited (reviewerOf r))"
    then have "forEach byReviewer_step rs [] = Inl TypeError"
      by (intro byReviewer_forEach_error) auto
    then show False using assms by (simp add: calculateByReviewer_def)
  qed
  obtain stats where st: "forEach byReviewer_step rs [] = Inr stats"
    and look: "\<And>a. map_of stats a = (if questionsOf a rs = [] then None else Some (accState a rs))"
    using byReviewer_forEach [OF own] by auto
  have "st = map (\<lambda>kv. (fst kv, reviewer_finish (snd kv))) stats"
    using assms by (simp add: calculateByReviewer_def st)
  then have "map_of st reviewer = map_option reviewer_finish (map_of stats reviewer)"
    by (simp only: map_of_map_snd)
  then show ?thesis
    by (simp add: look reviewer_finish_def accState_def)
qed


lemma calculateByReviewer_throws:
  "calculateByReviewer rs = Inl TypeError \<longleftrightarrow> (\<exists>r\<in>set rs. inherited (reviewerOf r))"
proof
  assume "\<exists>r\<in>set rs. inherited (reviewerOf r)"
  then show "calculateByReviewer rs = Inl TypeError"
    by (simp add: calculateByReviewer_def byReviewer_forEach_error)
next
  assume e: "calculateByReviewer rs = Inl TypeError"
  show "\<exists>r\<in>set rs. inherited (reviewerOf r)"
  proof (rule ccontr)
    assume "\<not> (\<exists>r\<in>set rs. inherited (reviewerOf r))"
    then have "\<forall>r\<in>set rs. \<not> inherited (reviewerOf r)" by simp
    from byReviewer_forEach [OF this] obtain stats where "forEach byReviewer_step rs [] = Inr stats"
      by auto
    then show False using e by (simp add: calculateByReviewer_def)
  qed
qed

text \<open>
  C1 (defect of the code). \<open>calculateByReviewer\<close> throws a \<open>TypeError\<close> exactly when some
  record has a reviewer named like a property that objects inherit, as the record of the
  reviewer \<open>constructor\<close> shows. Whenever it returns, the claim holds for every reviewer:
  the group has an entry for the reviewer exactly when the reviewer has a record; its
  \<open>total\<close> is the number of distinct question ids among the reviewer's records and its
  \<open>correct\<close> is the number of those question ids whose first record of the reviewer, in
  input order, is correct. Further records for the same reviewer and question id change
  nothing.
\<close>

theorem calculateByReviewer_first_seen:
  "(calculateByReviewer rs = Inl TypeError \<longleftrightarrow> (\<exists>r\<in>set rs. inherited (reviewerOf r)))
   \<and> (\<forall>st. calculateByReviewer rs = Inr st \<longrightarrow>
         map_of st reviewer =
           (if questionsOf reviewer rs = [] then None
            else Some \<lparr>reviewer_stat.correct = length (correctQuestionsOf reviewer rs),
                       reviewer_stat.total = length (questionsOf reviewer rs),
                       reviewer_stat.accuracy =
                         toFixed1 (jsPercent (length (correctQuestionsOf reviewer rs))
                                             (length (questionsOf reviewer rs)))\<rparr>))
   \<and> distinct (questionsOf reviewer rs)
   \<and> set (questionsOf reviewer rs) = questionIdOf ` {r \<in> set rs. reviewerOf r = reviewer}
   \<and> set (correctQuestionsOf reviewer rs) =
       {q \<in> set (questionsOf reviewer rs).
          \<exists>r. List.find (\<lambda>r. reviewerOf r = reviewer \<and> questionIdOf r = q) rs = Some r \<and> correctOf r}
   \<and> calculateByReviewer constructorReviews = Inl TypeError"
proof -
  have 4: "set (correctQuestionsOf reviewer rs) =
       {q \<in> set (questionsOf reviewer rs).
          \<exists>r. List.find (\<lambda>r. reviewerOf r = reviewer \<and> questionIdOf r = q) rs = Some r \<and> correctOf r}"
    by (auto simp: correctQuestionsOf_def firstCorrect_def firstRecordFor_def split: option.splits)
  have 5: "calculateByReviewer constructorReviews = Inl TypeError"
    unfolding calculateByReviewer_throws
    by (simp add: constructorReviews_def mkReview_def reviewerOf_def js_or_def truthy_def
        inherited_constructor)
  show ?thesis
    using calculateByReviewer_throws [of rs] calculateByReviewer_lookup [of rs _ reviewer]
      4 5 distinct_questionsOf [of reviewer rs] set_questionsOf [of reviewer rs]
    by blast
qed

theorem calculateByReviewer_first_seen_witness:
  "calculateByReviewer dupReviews =
     Inr [(''bob'', \<lparr>reviewer_stat.correct = 1, reviewer_stat.total = 1, reviewer_stat.accuracy = 100\<rparr>)]
   \<and> map_of [(''bob'', \<lparr>reviewer_stat.correct = 1, reviewer_stat.total = 1, reviewer_stat.accuracy = 100\<rparr>)] ''bob''
       = Some \<lparr>reviewer_stat.correct = length (correctQuestionsOf ''bob'' dupReviews),
               reviewer_stat.total = length (questionsOf ''bob'' dupReviews),
               reviewer_stat.accuracy = 100\<rparr>"
proof -
  have q: "questionsOf ''bob'' dupReviews = [Some ''q1'']"
    by (simp add: questionsOf_def dupReviews_def mkReview_def reviewerOf_def questionIdOf_def
        js_or_def truthy_def)
  have c: "correctQuestionsOf ''bob'' dupReviews = [Some ''q1'']"
    unfolding correctQuestionsOf_def q
    by (simp add: firstCorrect_def firstRecordFor_def dupReviews_def mkReview_def reviewerOf_def
        questionIdOf_def js_or_def truthy_def correctOf_def flag_or_def)
  have t: "toFixed1 (jsPercent (Suc 0) (Suc 0)) = 100"
    by code_simp
  have i: "\<not> inherited ''bob''"
    by (simp add: inherited_def inheritedKeys_def)
  have run: "calculateByReviewer dupReviews =
     Inr [(''bob'', \<lparr>reviewer_stat.correct = 1, reviewer_stat.total = 1, reviewer_stat.accuracy = 100\<rparr>)]"
    by (simp add: calculateByReviewer_def byReviewer_step_def absent_def i dupReviews_def mkReview_def
        reviewerOf_def questionIdOf_def js_or_def truthy_def correctOf_def flag_or_def
        reviewer_finish_def t Let_def)
  from calculateByReviewer_first_seen [of dupReviews "''bob''", THEN conjunct2, THEN conjunct1,
      rule_format, OF run]
  show ?thesis unfolding q c using run by (simp add: t)
qed

subsection \<open>Overall statistics\<close>

lemma mset_partition_filter:
  "mset (filter P xs) + mset (filter (\<lambda>x. \<not> P x) xs) = mset xs"
  by (induction xs) auto

lemma mset_ownEntries: "mset (ownEntries obj) = mset obj"
proof -
  have "(\<lambda>kv. array_index (fst kv) = None) = (\<lambda>kv::string \<times> 'a. \<not> array_index (fst kv) \<noteq> None)"
    by auto
  then show ?thesis
    unfolding ownEntries_def
    using mset_partition_filter [of "\<lambda>kv. array_index (fst kv) \<noteq> None" obj]
    by (simp del: not_None_eq)
qed

lemma length_ownEntries: "length (ownEntries obj) = length obj"
  using mset_ownEntries [of obj] by (metis size_mset)

lemma ownEntries_Nil_iff: "ownEntries obj = [] \<longleftrightarrow> obj = []"
  using length_ownEntries [of obj] by (metis length_0_conv)

lemma set_ownEntries: "set (ownEntries obj) = set obj"
  using mset_ownEntries [of obj] by (metis set_mset_mset)

lemma foldl_plus_sum_list: "foldl (\<lambda>s x. s + f x) a xs = (a::rat) + sum_list (map f xs)"
  by (induction xs arbitrary: a) (simp_all add: add.assoc)


lemma map_of_distinct_entry:
  "distinct (map fst st) \<Longrightarrow> kv \<in> set st \<Longrightarrow> map_of st (fst kv) = Some (snd kv)"
  by (cases kv) simp

















subsection \<open>By-question statistics\<close>

lemma firstSeen_snoc:
  "firstSeen (xs @ [x]) = (if x \<in> set xs then firstSeen xs else firstSeen xs @ [x])"
  by (simp add: firstSeen_def)

lemma set_firstSeen: "set (firstSeen xs) = set xs"
  by (simp add: firstSeen_def)

lemma distinct_firstSeen: "distinct (firstSeen xs)"
  by (simp add: firstSeen_def)

lemma map_insort_key:
  "map g (insort_key (\<lambda>x. f (g x)) a ys) = insort_key f (g a) (map g ys)"
  by (induction ys) simp_all

lemma map_sort_key:
  "map g (sort_key (\<lambda>x. f (g x)) xs) = sort_key f (map g xs)"
  by (induction xs) (simp_all add: map_insort_key)

lemma keys_ownEntries: "map fst (ownEntries obj) = keyOrder (map fst obj)"
proof -
  have "map fst (sort_key (\<lambda>kv. the (array_index (fst kv))) (filter (\<lambda>kv. array_index (fst kv) \<noteq> None) obj))
          = sort_key (\<lambda>k. the (array_index k)) (map fst (filter (\<lambda>kv. array_index (fst kv) \<noteq> None) obj))"
    by (rule map_sort_key)
  then show ?thesis
    by (simp add: ownEntries_def keyOrder_def filter_map comp_def del: not_None_eq)
qed

lemma recordsFor_snoc:
  "recordsFor k (rs @ [r]) = recordsFor k rs @ (if questionKey r = k \<and> \<not> inherited k then [r] else [])"
  by (simp add: recordsFor_def)

lemma recordsFor_inherited: "inherited k \<Longrightarrow> recordsFor k rs = []"
  by (simp add: recordsFor_def)

lemma byQuestion_step_inherited:
  "inherited (questionKey r) \<Longrightarrow> map_of stats (questionKey r) = None \<Longrightarrow> byQuestion_step r stats = stats"
  by (simp add: byQuestion_step_def absent_def questionKey_def Let_def)

lemma byQuestion_step_own:
  assumes "\<not> inherited (questionKey r)"
  shows "byQuestion_step r stats =
     AList.update (questionKey r)
       (let s = (case map_of stats (questionKey r) of
                      None \<Rightarrow> \<lparr>question_acc.questionId = questionIdOf r,
                                question_acc.question = enriched_review.question r,
                                question_acc.correct = 0, question_acc.total = 0\<rparr>
                    | Some s \<Rightarrow> s)
        in if correctOf r
           then s\<lparr>question_acc.total := question_acc.total s + 1,
                  question_acc.correct := question_acc.correct s + 1\<rparr>
           else s\<lparr>question_acc.total := question_acc.total s + 1\<rparr>)
       stats"
proof (cases "map_of stats (questionKey r)")
  case None
  then show ?thesis using assms
    by (simp add: byQuestion_step_def absent_def questionKey_def Let_def update_conv' update_last)
next
  case (Some s)
  then show ?thesis using assms
    by (simp add: byQuestion_step_def absent_def questionKey_def Let_def)
qed

lemma byQuestion_fold:
  "(\<forall>k. map_of (fold byQuestion_step rs []) k = groupOf k rs)
   \<and> map fst (fold byQuestion_step rs []) = firstSeen (filter (\<lambda>k. \<not> inherited k) (map questionKey rs))"
proof (induction rs rule: rev_induct)
  case Nil
  show ?case by (simp add: groupOf_def recordsFor_def firstSeen_def)
next
  case (snoc r rs)
  let ?stats = "fold byQuestion_step rs []"
  let ?kr = "questionKey r"
  have look: "map_of ?stats k = groupOf k rs" for k using snoc by simp
  have keys: "map fst ?stats = firstSeen (filter (\<lambda>k. \<not> inherited k) (map questionKey rs))"
    using snoc by simp
  show ?case
  proof (cases "inherited ?kr")
    case True
    have "groupOf ?kr rs = None" using True by (simp add: groupOf_def recordsFor_inherited)
    then have same: "byQuestion_step r ?stats = ?stats"
      using True by (intro byQuestion_step_inherited) (simp_all add: look)
    have "recordsFor k (rs @ [r]) = recordsFor k rs" for k
      using True by (auto simp: recordsFor_snoc)
    then have "groupOf k (rs @ [r]) = groupOf k rs" for k by (simp only: groupOf_def)
    then show ?thesis using True by (simp add: same look keys)
  next
    case False
    note step = byQuestion_step_own [OF False, of ?stats]
    have 1: "map_of (fold byQuestion_step (rs @ [r]) []) k = groupOf k (rs @ [r])" for k
    proof (cases "?kr = k")
      case neq: False
      then have "recordsFor k (rs @ [r]) = recordsFor k rs" by (simp add: recordsFor_snoc)
      then have "groupOf k (rs @ [r]) = groupOf k rs" by (simp only: groupOf_def)
      then show ?thesis using neq by (simp add: step update_conv' look)
    next
      case True
      have "map_of (fold byQuestion_step (rs @ [r]) []) k
              = map_of (byQuestion_step r ?stats) ?kr"
        using True by simp
      also have "\<dots> = groupOf k (rs @ [r])"
        unfolding step using True False look [of k]
        by (cases "recordsFor k rs") (auto simp: groupOf_def recordsFor_snoc Let_def update_conv')
      finally show ?thesis .
    qed
    have 2: "map fst (fold byQuestion_step (rs @ [r]) [])
               = firstSeen (filter (\<lambda>k. \<not> inherited k) (map questionKey (rs @ [r])))"
      using False by (simp add: step update_keys keys firstSeen_snoc set_firstSeen)
    show ?thesis using 1 2 by blast
  qed
qed

lemma byQuestion_lookup: "map_of (fold byQuestion_step rs []) k = groupOf k rs"
  using byQuestion_fold [of rs] by simp

lemma distinct_byQuestion_fold: "distinct (map fst (fold byQuestion_step rs []))"
  using byQuestion_fold [of rs] by (simp add: distinct_firstSeen)

lemma groupOf_key:
  "groupOf k rs = Some g \<Longrightarrow> js_key (question_acc.questionId g) = k"
proof -
  assume a: "groupOf k rs = Some g"
  then obtain r0 rest where r: "recordsFor k rs = r0 # rest"
    by (auto simp: groupOf_def split: list.splits)
  then have "r0 \<in> set (recordsFor k rs)" by simp
  then have "questionKey r0 = k" by (simp add: recordsFor_def)
  moreover have "question_acc.questionId g = questionIdOf r0"
    using a r by (auto simp: groupOf_def)
  ultimately show ?thesis by (simp add: questionKey_def)
qed

lemma filter_key_distinct:
  "distinct (map fst xs) \<Longrightarrow>
   filter (\<lambda>kv. fst kv = k) xs = (case map_of xs k of None \<Rightarrow> [] | Some v \<Rightarrow> [(k, v)])"
proof (induction xs)
  case Nil then show ?case by simp
next
  case (Cons x xs)
  show ?case
  proof (cases "fst x = k")
    case True
    moreover have "fst x \<notin> fst ` set xs" using Cons.prems by simp
    ultimately have "\<forall>kv\<in>set xs. fst kv \<noteq> k" by (metis imageI)
    then have "filter (\<lambda>kv. fst kv = k) xs = []" by (simp add: filter_empty_conv)
    with True show ?thesis by (cases x) simp
  next
    case False
    then show ?thesis using Cons by (cases x) simp
  qed
qed

lemma filter_ownEntries:
  "filter P (ownEntries obj) = ownEntries (filter P obj)"
  by (simp add: ownEntries_def filter_sort conj_commute)

lemma ownEntries_single: "ownEntries [kv] = [kv]"
  by (simp add: ownEntries_def)

lemma statKey_finish: "statKey (question_finish g) = js_key (question_acc.questionId g)"
  by (simp add: statKey_def question_finish_def question_acc.defs)

lemma statKey_entry:
  assumes "kv \<in> set (fold byQuestion_step rs [])"
  shows "statKey (question_finish (snd kv)) = fst kv"
proof -
  have "map_of (fold byQuestion_step rs []) (fst kv) = Some (snd kv)"
    using distinct_byQuestion_fold assms by (rule map_of_distinct_entry)
  then have "groupOf (fst kv) rs = Some (snd kv)" by (simp add: byQuestion_lookup)
  then show ?thesis by (simp add: statKey_finish groupOf_key)
qed

lemma questionGroups_keys: "map statKey (questionGroups rs) = groupKeys rs"
proof -
  have "map statKey (questionGroups rs)
          = map (\<lambda>kv. statKey (question_finish (snd kv))) (ownEntries (fold byQuestion_step rs []))"
    by (simp add: questionGroups_def comp_def)
  also have "\<dots> = map fst (ownEntries (fold byQuestion_step rs []))"
    by (rule map_cong) (simp_all add: set_ownEntries statKey_entry)
  also have "\<dots> = groupKeys rs"
    using byQuestion_fold [of rs] by (simp add: keys_ownEntries groupKeys_def)
  finally show ?thesis .
qed

lemma questionGroups_filter:
  "filter (\<lambda>s. statKey s = k) (questionGroups rs) =
     (case groupOf k rs of None \<Rightarrow> [] | Some g \<Rightarrow> [question_finish g])"
proof -
  let ?obj = "fold byQuestion_step rs []"
  have d: "distinct (map fst ?obj)" by (rule distinct_byQuestion_fold)
  have "filter (\<lambda>s. statKey s = k) (questionGroups rs)
          = map (\<lambda>kv. question_finish (snd kv))
              (ownEntries (filter (\<lambda>kv. statKey (question_finish (snd kv)) = k) ?obj))"
    by (simp add: questionGroups_def filter_map comp_def filter_ownEntries)
  also have "filter (\<lambda>kv. statKey (question_finish (snd kv)) = k) ?obj
               = filter (\<lambda>kv. fst kv = k) ?obj"
    by (rule filter_cong) (simp_all add: statKey_entry)
  also have "\<dots> = (case groupOf k rs of None \<Rightarrow> [] | Some g \<Rightarrow> [(k, g)])"
    by (simp add: filter_key_distinct [OF d] byQuestion_lookup)
  finally show ?thesis
    by (cases "groupOf k rs") (simp_all add: ownEntries_single ownEntries_def)
qed

lemma questionGroups_entry:
  assumes "s \<in> set (questionGroups rs)"
  shows "\<exists>g. groupOf (statKey s) rs = Some g \<and> s = question_finish g"
proof -
  have "s \<in> set (filter (\<lambda>t. statKey t = statKey s) (questionGroups rs))"
    using assms by simp
  then show ?thesis
    unfolding questionGroups_filter by (cases "groupOf (statKey s) rs") auto
qed

lemma groupOf_counts:
  assumes "groupOf k rs = Some g"
  shows "question_acc.total g = length (recordsFor k rs)
       \<and> question_acc.correct g = length (filter correctOf (recordsFor k rs))
       \<and> 0 < question_acc.total g
       \<and> question_acc.correct g \<le> question_acc.total g
       \<and> question_acc.questionId g \<in> questionIdOf ` set rs"
proof -
  obtain r0 rest where r: "recordsFor k rs = r0 # rest"
    using assms by (auto simp: groupOf_def split: list.splits)
  then have "r0 \<in> set (recordsFor k rs)" by simp
  then have r0: "r0 \<in> set rs" by (simp add: recordsFor_def)
  have g: "g = \<lparr>question_acc.questionId = questionIdOf r0,
                question_acc.question = enriched_review.question r0,
                question_acc.correct = length (filter correctOf (recordsFor k rs)),
                question_acc.total = length (recordsFor k rs)\<rparr>"
    using assms r by (simp add: groupOf_def)
  have 1: "question_acc.total g = length (recordsFor k rs)" by (subst g) simp
  have 2: "question_acc.correct g = length (filter correctOf (recordsFor k rs))" by (subst g) simp
  have 3: "0 < question_acc.total g" unfolding 1 r by simp
  have 4: "question_acc.correct g \<le> question_acc.total g" unfolding 1 2 by (rule length_filter_le)
  have 5: "question_acc.questionId g \<in> questionIdOf ` set rs" using r0 by (subst g) simp
  show ?thesis using 1 2 3 4 5 by blast
qed

lemma finish_fields:
  "question_acc.total (question_finish g) = question_acc.total g"
  "question_acc.correct (question_finish g) = question_acc.correct g"
  "question_acc.questionId (question_finish g) = question_acc.questionId g"
  "question_stat.accuracy (question_finish g) =
     (if question_acc.total g > 0
      then toFixed1 (jsPercent (question_acc.correct g) (question_acc.total g)) else 0)"
  by (simp_all add: question_finish_def question_acc.defs question_stat.defs)

lemma set_calculateByQuestion: "set (calculateByQuestion rs) = set (questionGroups rs)"
  by (simp add: calculateByQuestion_def)

lemma questionGroups_fields:
  assumes "s \<in> set (questionGroups rs)"
  shows "question_acc.total s = length (recordsFor (statKey s) rs)
       \<and> question_acc.correct s = length (filter correctOf (recordsFor (statKey s) rs))
       \<and> 0 < question_acc.total s
       \<and> question_acc.correct s \<le> question_acc.total s
       \<and> question_stat.accuracy s = toFixed1 (jsPercent (question_acc.correct s) (question_acc.total s))
       \<and> question_acc.questionId s \<in> questionIdOf ` set rs"
proof -
  from assms obtain g where g: "groupOf (statKey s) rs = Some g" "s = question_finish g"
    using questionGroups_entry by auto
  note c = groupOf_counts [OF g(1)]
  have pos: "0 < question_acc.total g" using c by blast
  have acc: "question_stat.accuracy (question_finish g)
               = toFixed1 (jsPercent (question_acc.correct g) (question_acc.total g))"
    using pos by (simp add: finish_fields)
  show ?thesis using c unfolding g(2) finish_fields(1-3) acc by blast
qed

lemma questionGroups_accuracy:
  assumes "s \<in> set (questionGroups rs)"
  shows "question_stat.accuracy s * 10 \<in> \<int> \<and> 0 \<le> question_stat.accuracy s
       \<and> question_stat.accuracy s \<le> 100
       \<and> question_stat.accuracy s = keyAccuracy (statKey s) rs"
proof -
  note f = questionGroups_fields [OF assms]
  have a: "question_stat.accuracy s = toFixed1 (jsPercent (question_acc.correct s) (question_acc.total s))"
    using f by simp
  have "0 < question_acc.total s" "question_acc.correct s \<le> question_acc.total s" using f by blast+
  from toFixed1_jsPercent_range [OF this] toFixed1_tenths [of "jsPercent (question_acc.correct s) (question_acc.total s)"]
  have "toFixed1 (jsPercent (question_acc.correct s) (question_acc.total s)) * 10 \<in> \<int>
      \<and> 0 \<le> toFixed1 (jsPercent (question_acc.correct s) (question_acc.total s))
      \<and> toFixed1 (jsPercent (question_acc.correct s) (question_acc.total s)) \<le> 100"
    by blast
  moreover have "keyAccuracy (statKey s) rs
                   = toFixed1 (jsPercent (question_acc.correct s) (question_acc.total s))"
    using f by (simp add: keyAccuracy_def)
  ultimately show ?thesis unfolding a by simp
qed

text \<open>Sorting by the parsed accuracies sorts by the accuracies, and keeps equal ones in order.\<close>

lemma fl_tenths_le:
  assumes "a * 10 \<in> \<int>" "0 \<le> a" "a \<le> 100" "b * 10 \<in> \<int>" "0 \<le> b" "b \<le> 100" "fl a \<le> fl b"
  shows "a \<le> b"
proof (rule ccontr)
  assume "\<not> a \<le> b"
  then have ba: "b < a" by simp
  have "fl b < fl a" by (rule fl_tenths_strict [OF assms(4) assms(1) assms(5) ba assms(3)])
  with assms(7) show False by simp
qed

lemma fl_tenths_eq:
  assumes "a * 10 \<in> \<int>" "0 \<le> a" "a \<le> 100" "b * 10 \<in> \<int>" "0 \<le> b" "b \<le> 100" "fl a = fl b"
  shows "a = b"
proof -
  have "a \<le> b" using assms by (intro fl_tenths_le [of a b]) (simp_all only: order_refl)
  moreover have "b \<le> a" using assms by (intro fl_tenths_le [of b a]) (simp_all only: order_refl)
  ultimately show ?thesis by simp
qed

lemma sorted_parsed:
  assumes "\<forall>s\<in>set xs. f s * 10 \<in> \<int> \<and> 0 \<le> f s \<and> f s \<le> 100" "sorted (map (\<lambda>s. fl (f s)) xs)"
  shows "sorted (map f xs)"
  using assms
proof (induction xs)
  case Nil
  show ?case by simp
next
  case (Cons x xs)
  have x: "f x * 10 \<in> \<int>" "0 \<le> f x" "f x \<le> 100" using Cons.prems(1) by simp_all
  have le: "fl (f x) \<le> fl (f y)" if "y \<in> set xs" for y
    using Cons.prems(2) that by simp
  have "f x \<le> f y" if "y \<in> set xs" for y
  proof -
    have y: "f y * 10 \<in> \<int>" "0 \<le> f y" "f y \<le> 100" using Cons.prems(1) that by simp_all
    show ?thesis by (rule fl_tenths_le [OF x y le [OF that]])
  qed
  moreover have "sorted (map f xs)" using Cons by simp
  ultimately show ?case by simp
qed

lemma stable_parsed:
  assumes "\<forall>s\<in>set xs. f s * 10 \<in> \<int> \<and> 0 \<le> f s \<and> f s \<le> 100"
  shows "filter (\<lambda>s. f s = a) (sort_key (\<lambda>s. fl (f s)) xs) = filter (\<lambda>s. f s = a) xs"
proof (cases "a \<in> f ` set xs")
  case False
  then have "\<forall>s\<in>set xs. f s \<noteq> a" by blast
  then have "filter (\<lambda>s. f s = a) xs = []" "filter (\<lambda>s. f s = a) (sort_key (\<lambda>s. fl (f s)) xs) = []"
    by (simp_all add: filter_empty_conv)
  then show ?thesis by simp
next
  case True
  then obtain s0 where "s0 \<in> set xs" "a = f s0" by blast
  then have a: "a * 10 \<in> \<int>" "0 \<le> a" "a \<le> 100" using assms by simp_all
  have eq: "(f s = a) = (fl (f s) = fl a)" if "s \<in> set xs" for s
  proof
    assume "f s = a" then show "fl (f s) = fl a" by simp
  next
    assume e: "fl (f s) = fl a"
    have s: "f s * 10 \<in> \<int>" "0 \<le> f s" "f s \<le> 100" using assms that by simp_all
    show "f s = a" by (rule fl_tenths_eq [OF s a e])
  qed
  have "filter (\<lambda>s. f s = a) (sort_key (\<lambda>s. fl (f s)) xs)
          = filter (\<lambda>s. fl (f s) = fl a) (sort_key (\<lambda>s. fl (f s)) xs)"
    by (rule filter_cong) (simp_all add: eq)
  also have "\<dots> = filter (\<lambda>s. fl (f s) = fl a) xs" by (rule sort_key_stable)
  also have "\<dots> = filter (\<lambda>s. f s = a) xs"
    by (rule filter_cong) (simp_all add: eq)
  finally show ?thesis .
qed

text \<open>
  C6 (amended). The by-question list is sorted ascending by accuracy, and entries of equal
  accuracy keep the order in which the groups are enumerated: the question ids that are
  array indexes first, in ascending numeric order, then the other ids in the order of
  their first record. For every property key there is exactly one entry when some record is
  filed under the key and the key is not the name of an inherited property, and none
  otherwise. Every entry counts all records filed under its key: \<open>total\<close> is their number,
  which is positive, \<open>correct\<close> the number of correct ones, and \<open>accuracy\<close> is the
  printed value of \<open>correct / total * 100\<close> in doubles: a multiple of one tenth, and for
  fewer than \<open>2^40\<close> records one nearest to the exact quotient. A catalog question whose id
  no record carries has no entry.
\<close>

theorem calculateByQuestion_sorted_groups:
  "sorted (map question_stat.accuracy (calculateByQuestion rs))
   \<and> (\<forall>a. map statKey (filter (\<lambda>s. question_stat.accuracy s = a) (calculateByQuestion rs))
           = filter (\<lambda>k. keyAccuracy k rs = a) (groupKeys rs))
   \<and> (\<forall>k. length (filter (\<lambda>s. statKey s = k) (calculateByQuestion rs))
           = (if inherited k \<or> k \<notin> set (map questionKey rs) then 0 else 1))
   \<and> (\<forall>s\<in>set (calculateByQuestion rs).
         question_acc.total s = length (filter (\<lambda>r. questionKey r = statKey s) rs)
       \<and> question_acc.correct s = length (filter correctOf (filter (\<lambda>r. questionKey r = statKey s) rs))
       \<and> 0 < question_acc.total s
       \<and> question_stat.accuracy s = toFixed1 (jsPercent (question_acc.correct s) (question_acc.total s))
       \<and> question_stat.accuracy s * 10 \<in> \<int>
       \<and> (question_acc.total s < 2 ^ 40 \<longrightarrow>
            \<bar>question_stat.accuracy s
               - of_nat (question_acc.correct s) / of_nat (question_acc.total s) * 100\<bar> \<le> 1 / 20))
   \<and> (\<forall>q. (\<forall>r\<in>set rs. questionIdOf r \<noteq> Some (questionID q)) \<longrightarrow>
           (\<forall>s\<in>set (calculateByQuestion rs). question_acc.questionId s \<noteq> Some (questionID q)))"
proof -
  have range: "\<forall>s\<in>set (questionGroups rs). question_stat.accuracy s * 10 \<in> \<int>
                 \<and> 0 \<le> question_stat.accuracy s \<and> question_stat.accuracy s \<le> 100"
    using questionGroups_accuracy by blast
  have 1: "sorted (map question_stat.accuracy (calculateByQuestion rs))"
  proof (rule sorted_parsed)
    show "\<forall>s\<in>set (calculateByQuestion rs). question_stat.accuracy s * 10 \<in> \<int>
            \<and> 0 \<le> question_stat.accuracy s \<and> question_stat.accuracy s \<le> 100"
      using range by (simp add: set_calculateByQuestion)
    show "sorted (map (\<lambda>s. fl (question_stat.accuracy s)) (calculateByQuestion rs))"
      by (simp add: calculateByQuestion_def)
  qed
  have 2: "map statKey (filter (\<lambda>s. question_stat.accuracy s = a) (calculateByQuestion rs))
           = filter (\<lambda>k. keyAccuracy k rs = a) (groupKeys rs)" for a
  proof -
    have "filter (\<lambda>s. question_stat.accuracy s = a) (calculateByQuestion rs)
            = filter (\<lambda>s. question_stat.accuracy s = a) (questionGroups rs)"
      unfolding calculateByQuestion_def using range by (rule stable_parsed)
    also have "\<dots> = filter (\<lambda>s. keyAccuracy (statKey s) rs = a) (questionGroups rs)"
      by (rule filter_cong) (simp_all add: questionGroups_accuracy)
    finally have "map statKey (filter (\<lambda>s. question_stat.accuracy s = a) (calculateByQuestion rs))
            = filter (\<lambda>k. keyAccuracy k rs = a) (map statKey (questionGroups rs))"
      by (simp add: filter_map comp_def)
    then show ?thesis by (simp only: questionGroups_keys)
  qed
  have 3: "length (filter (\<lambda>s. statKey s = k) (calculateByQuestion rs))
           = (if inherited k \<or> k \<notin> set (map questionKey rs) then 0 else 1)" for k
  proof -
    have "filter (\<lambda>s. statKey s = k) (calculateByQuestion rs)
            = sort_key (\<lambda>s. fl (question_stat.accuracy s)) (filter (\<lambda>s. statKey s = k) (questionGroups rs))"
      by (simp add: calculateByQuestion_def filter_sort)
    then have "length (filter (\<lambda>s. statKey s = k) (calculateByQuestion rs))
            = length (case groupOf k rs of None \<Rightarrow> [] | Some g \<Rightarrow> [question_finish g])"
      by (simp add: questionGroups_filter)
    moreover have "recordsFor k rs = [] \<longleftrightarrow> inherited k \<or> k \<notin> set (map questionKey rs)"
      by (auto simp: recordsFor_def filter_empty_conv)
    ultimately show ?thesis
      by (cases "recordsFor k rs") (simp_all add: groupOf_def)
  qed
  have 4: "question_acc.total s = length (filter (\<lambda>r. questionKey r = statKey s) rs)
       \<and> question_acc.correct s = length (filter correctOf (filter (\<lambda>r. questionKey r = statKey s) rs))
       \<and> 0 < question_acc.total s
       \<and> question_stat.accuracy s = toFixed1 (jsPercent (question_acc.correct s) (question_acc.total s))
       \<and> question_stat.accuracy s * 10 \<in> \<int>
       \<and> (question_acc.total s < 2 ^ 40 \<longrightarrow>
            \<bar>question_stat.accuracy s
               - of_nat (question_acc.correct s) / of_nat (question_acc.total s) * 100\<bar> \<le> 1 / 20)"
    and 5: "question_acc.questionId s \<in> questionIdOf ` set rs"
    if "s \<in> set (calculateByQuestion rs)" for s
  proof -
    from that have s: "s \<in> set (questionGroups rs)" by (simp add: set_calculateByQuestion)
    note f = questionGroups_fields [OF s]
    have pos: "0 < question_acc.total s" and le: "question_acc.correct s \<le> question_acc.total s"
      using f by blast+
    have "0 < length (recordsFor (statKey s) rs)" using f by metis
    then have "recordsFor (statKey s) rs \<noteq> []" by simp
    then have "\<not> inherited (statKey s)" by (auto simp: recordsFor_def)
    then have r: "recordsFor (statKey s) rs = filter (\<lambda>r. questionKey r = statKey s) rs"
      by (simp add: recordsFor_def)
    have near: "question_acc.total s < 2 ^ 40 \<longrightarrow>
            \<bar>toFixed1 (jsPercent (question_acc.correct s) (question_acc.total s))
               - of_nat (question_acc.correct s) / of_nat (question_acc.total s) * 100\<bar> \<le> 1 / 20"
      using toFixed1_jsPercent_near [OF pos le] by blast
    show "question_acc.total s = length (filter (\<lambda>r. questionKey r = statKey s) rs)
       \<and> question_acc.correct s = length (filter correctOf (filter (\<lambda>r. questionKey r = statKey s) rs))
       \<and> 0 < question_acc.total s
       \<and> question_stat.accuracy s = toFixed1 (jsPercent (question_acc.correct s) (question_acc.total s))
       \<and> question_stat.accuracy s * 10 \<in> \<int>
       \<and> (question_acc.total s < 2 ^ 40 \<longrightarrow>
            \<bar>question_stat.accuracy s
               - of_nat (question_acc.correct s) / of_nat (question_acc.total s) * 100\<bar> \<le> 1 / 20)"
      using f near questionGroups_accuracy [OF s] unfolding r by metis
    show "question_acc.questionId s \<in> questionIdOf ` set rs"
      using f by blast
  qed
  have 6: "\<forall>s\<in>set (calculateByQuestion rs). question_acc.questionId s \<noteq> Some (questionID q)"
    if "\<forall>r\<in>set rs. questionIdOf r \<noteq> Some (questionID q)" for q
    using that 5 by force
  show ?thesis using 1 2 3 4 6 by blast
qed


lemma fourEnriched_keys:
  "map questionKey fourEnriched = [''q2'', ''q1'', ''q1'', ''q2'']"
  by code_simp

lemma not_inherited_q1: "\<not> inherited ''q1''"
  by code_simp

theorem calculateByQuestion_sorted_groups_witness:
  "sorted (map question_stat.accuracy (calculateByQuestion fourEnriched))
   \<and> length (filter (\<lambda>s. statKey s = ''q1'') (calculateByQuestion fourEnriched)) = 1
   \<and> length (filter (\<lambda>s. statKey s = ''q3'') (calculateByQuestion fourEnriched)) = 0
   \<and> length (filter (\<lambda>s. statKey s = ''constructor'') (calculateByQuestion fourEnriched)) = 0"
proof -
  note t = calculateByQuestion_sorted_groups [of fourEnriched]
  note k = t [THEN conjunct2, THEN conjunct2, THEN conjunct1, rule_format]
  show ?thesis
    using t [THEN conjunct1] k [of "''q1''"] k [of "''q3''"] k [of "''constructor''"]
    by (simp add: fourEnriched_keys not_inherited_q1 inherited_constructor)
qed

lemma array_index_10_2: "array_index ''10'' = Some 10" "array_index ''2'' = Some 2"
  by (simp_all add: array_index_def digits_value_def)

lemma jsPercent_small:
  "toFixed1 (jsPercent (Suc 0) (Suc 0)) = 100"
  "toFixed1 (jsPercent (Suc 0) (Suc (Suc 0))) = 50"
  "toFixed1 (jsPercent (Suc (Suc 0)) (Suc (Suc 0))) = 100"
  "fl 50 = 50" "fl 100 = 100"
  by code_simp+

lemma fourEnriched_byQuestion:
  "map statKey (calculateByQuestion fourEnriched) = [''q1'', ''q2'']
   \<and> map question_stat.accuracy (calculateByQuestion fourEnriched) = [50, 100]"
  by (simp add: fourEnriched_def calculateByQuestion_def questionGroups_def byQuestion_step_def Let_def
      absent_def inherited_def inheritedKeys_def questionKey_def
      questionIdOf_def js_or_def js_key_def truthy_def enrich_def mkReview_def mkQuestion_def
      review.defs enriched_review.defs correctOf_def flag_or_def ownEntries_def array_index_def
      question_finish_def question_acc.defs question_stat.defs statKey_def jsPercent_small)

text \<open>
  A correct answer to the question \<open>10\<close> followed by a correct answer to the question
  \<open>2\<close>: both groups have the accuracy 100, the group of \<open>10\<close> is made first, and the
  list has the entry of \<open>2\<close> first.
\<close>

theorem calculateByQuestion_sorted_groups_counterexample:
  "map questionKey tieEnriched = [''10'', ''2'']
   \<and> map question_stat.accuracy (calculateByQuestion tieEnriched) = [100, 100]
   \<and> map statKey (calculateByQuestion tieEnriched) = [''2'', ''10'']"
  by (simp add: tieEnriched_def calculateByQuestion_def questionGroups_def byQuestion_step_def Let_def
      absent_def inherited_def inheritedKeys_def questionKey_def
      questionIdOf_def js_or_def js_key_def truthy_def enrich_def mkReview_def mkQuestion_def
      review.defs enriched_review.defs correctOf_def flag_or_def ownEntries_def array_index_10_2
      question_finish_def question_acc.defs question_stat.defs statKey_def jsPercent_small)

subsection \<open>By-author statistics\<close>

lemma mset_keyOrder: "mset (keyOrder ks) = mset ks"
proof -
  have "(\<lambda>k. array_index k = None) = (\<lambda>k. \<not> array_index k \<noteq> None)"
    by auto
  then show ?thesis
    unfolding keyOrder_def
    using mset_partition_filter [of "\<lambda>k. array_index k \<noteq> None" ks]
    by (simp del: not_None_eq)
qed

lemma length_keyOrder: "length (keyOrder ks) = length ks"
  using mset_keyOrder [of ks] by (metis size_mset)

lemma set_keyOrder: "set (keyOrder ks) = set ks"
  using mset_keyOrder [of ks] by (metis set_mset_mset)

lemma sum_list_keyOrder: "sum_list (map f (keyOrder ks)) = (sum_list (map f ks) :: rat)"
proof -
  have "mset (map f (keyOrder ks)) = mset (map f ks)"
    by (simp add: mset_keyOrder)
  then show ?thesis by (metis sum_mset_sum_list)
qed

lemma skipAuthor_iff:
  "\<not> skipAuthor v \<longleftrightarrow> (\<exists>a. v = Some a \<and> validAuthor a)"
  by (cases v) (auto simp: skipAuthor_def truthy_def validAuthor_def)

lemma authorRecords_snoc:
  "authorRecords a (es @ [r]) =
     authorRecords a es @ (if \<not> skipAuthor (authorOf r) \<and> js_key (authorOf r) = a then [r] else [])"
  by (auto simp: authorRecords_def skipAuthor_iff js_key_def)

lemma pairRecords_snoc:
  "pairRecords a v (es @ [r]) =
     pairRecords a v es @
       (if \<not> skipAuthor (authorOf r) \<and> js_key (authorOf r) = a \<and> reviewerOf r = v then [r] else [])"
  by (simp add: pairRecords_def authorRecords_snoc)

lemma byAuthor_step_skip:
  "skipAuthor (authorOf r) \<Longrightarrow> byAuthor_step r ars = ars"
  by (simp add: byAuthor_step_def)

lemma byAuthor_step_own:
  assumes "\<not> skipAuthor (authorOf r)" "\<not> inherited (js_key (authorOf r))" "\<not> inherited (reviewerOf r)"
  shows "byAuthor_step r ars =
     AList.update (js_key (authorOf r))
       (let inner = (case map_of ars (js_key (authorOf r)) of None \<Rightarrow> [] | Some i \<Rightarrow> i);
            s = (case map_of inner (reviewerOf r) of
                   None \<Rightarrow> \<lparr>pair_acc.correct = 0, pair_acc.total = 0\<rparr> | Some s \<Rightarrow> s)
        in AList.update (reviewerOf r)
             (if correctOf r
              then s\<lparr>pair_acc.total := pair_acc.total s + 1, pair_acc.correct := pair_acc.correct s + 1\<rparr>
              else s\<lparr>pair_acc.total := pair_acc.total s + 1\<rparr>)
             inner)
       ars"
proof (cases "map_of ars (js_key (authorOf r))")
  case None
  then show ?thesis using assms
    by (simp add: byAuthor_step_def absent_def Let_def update_conv' update_last)
next
  case (Some inner)
  then show ?thesis using assms
    by (cases "map_of inner (reviewerOf r)")
       (simp_all add: byAuthor_step_def absent_def Let_def update_conv' update_last)
qed

text \<open>
  A record whose author is named like an inherited property makes no group: the by-author
  statistics of a catalog with a question by \<open>constructor\<close> and one answer to it are empty.
\<close>

lemma byAuthor_step_inherited:
  "\<not> skipAuthor (authorOf r) \<Longrightarrow> inherited (js_key (authorOf r)) \<Longrightarrow>
   map_of ars (js_key (authorOf r)) = None \<Longrightarrow> byAuthor_step r ars = ars"
  by (simp add: byAuthor_step_def absent_def Let_def)

lemma calculateByAuthor_constructor:
  "calculateByAuthor [mkQuestion ''q1'' ''food'' ''constructor'']
     [enrich (mkReview ''r1'' ''ann'' ''food'' ''q1'' 0 True)
        (Some (mkQuestion ''q1'' ''food'' ''constructor''))] = []"
  by code_simp

lemma innerOk_Nil: "authorRecords a es = [] \<Longrightarrow> innerOk a es []"
  by (simp add: innerOk_def pairRecords_def reviewersOfAuthor_def firstSeen_def)

lemma pairCounts_snoc_same:
  assumes "\<not> skipAuthor (authorOf r)" "js_key (authorOf r) = a" "reviewerOf r = v"
  shows "pairCounts a (es @ [r]) v =
     (let s = (if pairRecords a v es = [] then \<lparr>pair_acc.correct = 0, pair_acc.total = 0\<rparr>
               else pairCounts a es v)
      in if correctOf r
         then s\<lparr>pair_acc.total := pair_acc.total s + 1, pair_acc.correct := pair_acc.correct s + 1\<rparr>
         else s\<lparr>pair_acc.total := pair_acc.total s + 1\<rparr>)"
  using assms by (simp add: pairCounts_def pairRecords_snoc Let_def)

lemma reviewersOfAuthor_set:
  "set (reviewersOfAuthor a es) = {v. pairRecords a v es \<noteq> []}"
  by (auto simp: pairRecords_def reviewersOfAuthor_def set_firstSeen filter_empty_conv)

lemma innerOk_step:
  assumes ok: "innerOk a es inner"
    and r: "\<not> skipAuthor (authorOf r)" "js_key (authorOf r) = a"
  shows "innerOk a (es @ [r])
     (let s = (case map_of inner (reviewerOf r) of
                 None \<Rightarrow> \<lparr>pair_acc.correct = 0, pair_acc.total = 0\<rparr> | Some s \<Rightarrow> s)
      in AList.update (reviewerOf r)
           (if correctOf r
            then s\<lparr>pair_acc.total := pair_acc.total s + 1, pair_acc.correct := pair_acc.correct s + 1\<rparr>
            else s\<lparr>pair_acc.total := pair_acc.total s + 1\<rparr>)
           inner)"
proof -
  let ?v = "reviewerOf r"
  have keys: "map fst inner = reviewersOfAuthor a es" using ok by (simp add: innerOk_def)
  have look: "map_of inner v = (if pairRecords a v es = [] then None else Some (pairCounts a es v))" for v
    using ok by (simp add: innerOk_def)
  have cur: "(case map_of inner ?v of
                 None \<Rightarrow> \<lparr>pair_acc.correct = 0, pair_acc.total = 0\<rparr> | Some s \<Rightarrow> s)
             = (if pairRecords a ?v es = [] then \<lparr>pair_acc.correct = 0, pair_acc.total = 0\<rparr>
                else pairCounts a es ?v)"
    by (simp add: look)
  have same: "pairRecords a ?v (es @ [r]) \<noteq> []"
    using r by (simp add: pairRecords_snoc)
  have other: "v \<noteq> ?v \<Longrightarrow> pairRecords a v (es @ [r]) = pairRecords a v es" for v
    by (auto simp: pairRecords_snoc)
  have other_counts: "v \<noteq> ?v \<Longrightarrow> pairCounts a (es @ [r]) v = pairCounts a es v" for v
    by (simp add: pairCounts_def other)
  have "reviewersOfAuthor a (es @ [r]) =
          (if ?v \<in> set (reviewersOfAuthor a es) then reviewersOfAuthor a es
           else reviewersOfAuthor a es @ [?v])"
    using r by (simp add: reviewersOfAuthor_def authorRecords_snoc firstSeen_snoc set_firstSeen)
  then have k: "map fst (AList.update ?v s inner) = reviewersOfAuthor a (es @ [r])" for s
    by (simp add: update_keys keys)
  have l: "map_of (AList.update ?v
             (let s = (if pairRecords a ?v es = [] then \<lparr>pair_acc.correct = 0, pair_acc.total = 0\<rparr>
                       else pairCounts a es ?v)
              in if correctOf r
                 then s\<lparr>pair_acc.total := pair_acc.total s + 1, pair_acc.correct := pair_acc.correct s + 1\<rparr>
                 else s\<lparr>pair_acc.total := pair_acc.total s + 1\<rparr>) inner) v
        = (if pairRecords a v (es @ [r]) = [] then None else Some (pairCounts a (es @ [r]) v))" for v
    using same other other_counts look pairCounts_snoc_same [OF r refl, of es]
    by (auto simp: update_conv' Let_def)
  show ?thesis
    unfolding innerOk_def cur using k l by (simp add: Let_def)
qed

lemma byAuthor_fold:
  assumes "ownNames es"
  shows "distinct (map fst (fold byAuthor_step es []))
   \<and> (case map_of (fold byAuthor_step es []) a of
        None \<Rightarrow> authorRecords a es = []
      | Some inner \<Rightarrow> authorRecords a es \<noteq> [] \<and> innerOk a es inner)"
  using assms
proof (induction es rule: rev_induct)
  case Nil
  show ?case by (simp add: authorRecords_def)
next
  case (snoc r es)
  let ?ars = "fold byAuthor_step es []"
  have own: "ownNames es"
    and rown: "skipAuthor (authorOf r) \<or> (\<not> inherited (js_key (authorOf r)) \<and> \<not> inherited (reviewerOf r))"
    using snoc.prems by (simp_all add: ownNames_def)
  note ih = snoc.IH [OF own]
  show ?case
  proof (cases "skipAuthor (authorOf r)")
    case True
    then have same: "authorRecords a (es @ [r]) = authorRecords a es"
      "\<And>v. pairRecords a v (es @ [r]) = pairRecords a v es"
      by (auto simp: authorRecords_snoc pairRecords_snoc)
    then have ok: "innerOk a (es @ [r]) inner = innerOk a es inner" for inner
      by (simp add: innerOk_def pairCounts_def reviewersOfAuthor_def)
    show ?thesis using ih True same(1) ok
      by (cases "map_of ?ars a") (simp_all add: byAuthor_step_skip)
  next
    case False
    then have names: "\<not> inherited (js_key (authorOf r))" "\<not> inherited (reviewerOf r)"
      using rown by simp_all
    note step = byAuthor_step_own [OF False names, of ?ars]
    have d: "distinct (map fst (byAuthor_step r ?ars))"
      unfolding step using ih by (simp add: distinct_update)
    show ?thesis
    proof (cases "js_key (authorOf r) = a")
      case neq: False
      then have same: "authorRecords a (es @ [r]) = authorRecords a es"
        "\<And>v. pairRecords a v (es @ [r]) = pairRecords a v es"
        by (auto simp: authorRecords_snoc pairRecords_snoc)
      then have ok: "innerOk a (es @ [r]) inner = innerOk a es inner" for inner
        by (simp add: innerOk_def pairCounts_def reviewersOfAuthor_def)
      have "map_of (byAuthor_step r ?ars) a = map_of ?ars a"
        unfolding step using neq by (simp add: update_conv')
      then show ?thesis using ih d same(1) ok
        by (cases "map_of ?ars a") simp_all
    next
      case True
      have r: "\<not> skipAuthor (authorOf r)" "js_key (authorOf r) = a" using False True by auto
      have ne: "authorRecords a (es @ [r]) \<noteq> []" using r by (simp add: authorRecords_snoc)
      have prev: "innerOk a es (case map_of ?ars a of None \<Rightarrow> [] | Some i \<Rightarrow> i)"
        using ih by (cases "map_of ?ars a") (simp_all add: innerOk_Nil)
      have "\<exists>inner'. map_of (byAuthor_step r ?ars) a = Some inner' \<and> innerOk a (es @ [r]) inner'"
        unfolding step using innerOk_step [OF prev r] r(2) by (simp add: Let_def update_conv')
      then show ?thesis using d ne by auto
    qed
  qed
qed

lemma byAuthor_finish_eq:
  "byAuthor_finish ars counts author stats =
     (if the (map_of ars author) = [] then stats
      else AList.update author (authorEntry ars counts author) stats)"
  by (simp add: byAuthor_finish_def authorEntry_def Let_def ownEntries_Nil_iff)

lemma byAuthor_finish_fold:
  "map_of (fold (byAuthor_finish ars counts) ks acc) a =
     (if a \<in> set ks \<and> the (map_of ars a) \<noteq> [] then Some (authorEntry ars counts a)
      else map_of acc a)"
proof (induction ks arbitrary: acc)
  case Nil
  show ?case by simp
next
  case (Cons k ks)
  show ?case
    by (simp add: Cons.IH) (auto simp: byAuthor_finish_eq update_conv')
qed

lemma authorCount_fold:
  "map_of (fold authorCount_step qs []) a =
     (let n = length (filter (\<lambda>q. \<not> skipAuthor (authored_by q) \<and> \<not> inherited (js_key (authored_by q))
                                  \<and> js_key (authored_by q) = a) qs)
      in if n = 0 then None else Some n)"
proof (induction qs rule: rev_induct)
  case Nil
  show ?case by simp
next
  case (snoc q qs)
  show ?case
  proof (cases "\<not> skipAuthor (authored_by q) \<and> \<not> inherited (js_key (authored_by q))
                 \<and> js_key (authored_by q) = a")
    case True
    then show ?thesis using snoc
      by (simp add: authorCount_step_def Let_def update_conv')
  next
    case False
    then show ?thesis using snoc
      by (cases "\<not> skipAuthor (authored_by q) \<and> \<not> inherited (js_key (authored_by q))")
         (auto simp: authorCount_step_def Let_def update_conv')
  qed
qed

lemma authorCount_valid:
  assumes "validAuthor a" "\<not> inherited a"
  shows "(case map_of (fold authorCount_step qs []) a of None \<Rightarrow> 0 | Some n \<Rightarrow> n) = authoredCount a qs"
proof -
  have "(\<lambda>q. \<not> skipAuthor (authored_by q) \<and> \<not> inherited (js_key (authored_by q))
              \<and> js_key (authored_by q) = a) = (\<lambda>q. authored_by q = Some a)"
    using assms by (auto simp: skipAuthor_iff js_key_def)
  then have "filter (\<lambda>q. \<not> skipAuthor (authored_by q) \<and> \<not> inherited (js_key (authored_by q))
                          \<and> js_key (authored_by q) = a) qs
               = filter (\<lambda>q. authored_by q = Some a) qs"
    by (rule arg_cong [where f = "\<lambda>p. filter p qs"])
  then show ?thesis
    unfolding authorCount_fold authoredCount_def Let_def by simp
qed

lemma innerOk_accuracies:
  assumes "innerOk a es inner"
  shows "map (\<lambda>v. pairAccuracy (the (map_of inner v))) (map fst (ownEntries inner))
           = map (pairDouble a es) (keyOrder (reviewersOfAuthor a es))"
proof -
  have keys: "map fst (ownEntries inner) = keyOrder (reviewersOfAuthor a es)"
    using assms by (simp add: keys_ownEntries innerOk_def)
  have val: "pairAccuracy (the (map_of inner v)) = pairDouble a es v"
    if "v \<in> set (keyOrder (reviewersOfAuthor a es))" for v
  proof -
    have "pairRecords a v es \<noteq> []"
      using that by (simp add: set_keyOrder reviewersOfAuthor_set)
    then show ?thesis using assms
      by (simp add: innerOk_def pairAccuracy_def pairCounts_def pairDouble_def)
  qed
  show ?thesis unfolding keys by (rule map_cong) (simp_all add: val)
qed

lemma authorEntry_spec:
  assumes "map_of ars a = Some inner" "innerOk a es inner" "validAuthor a" "\<not> inherited a"
  shows "authorEntry ars (fold authorCount_step qs []) a =
     \<lparr>questionCount = authoredCount a qs,
      author_stat.accuracy = authorAccuracy a es,
      author_stat.reviewerCount = length (reviewersOfAuthor a es)\<rparr>"
proof -
  have len: "length (ownEntries inner) = length (reviewersOfAuthor a es)"
    using assms(2) by (metis innerOk_def length_map length_ownEntries)
  have acc: "map ((\<lambda>v. pairAccuracy (the (map_of inner v))) \<circ> fst) (ownEntries inner)
               = map (pairDouble a es) (keyOrder (reviewersOfAuthor a es))"
    using innerOk_accuracies [OF assms(2)] by simp
  show ?thesis
    using assms(1) len
    by (simp add: authorEntry_def Let_def authorCount_valid [OF assms(3,4)] authorAccuracy_def
        acc length_keyOrder)
qed

lemma calculateByAuthor_lookup:
  assumes "ownNames es"
  shows "map_of (calculateByAuthor qs es) a =
     (if authorRecords a es = [] then None
      else Some \<lparr>questionCount = authoredCount a qs,
                 author_stat.accuracy = authorAccuracy a es,
                 author_stat.reviewerCount = length (reviewersOfAuthor a es)\<rparr>)"
proof -
  let ?ars = "fold byAuthor_step es []"
  let ?counts = "fold authorCount_step qs []"
  have look: "map_of (calculateByAuthor qs es) a =
     (if a \<in> set (map fst (ownEntries ?ars)) \<and> the (map_of ?ars a) \<noteq> []
      then Some (authorEntry ?ars ?counts a) else None)"
    by (simp add: calculateByAuthor_def Let_def byAuthor_finish_fold)
  have keys: "a \<in> set (map fst (ownEntries ?ars)) \<longleftrightarrow> map_of ?ars a \<noteq> None"
    by (simp add: set_ownEntries map_of_eq_None_iff)
  show ?thesis
  proof (cases "map_of ?ars a")
    case None
    then have "authorRecords a es = []" using byAuthor_fold [OF assms, of a] by simp
    with None show ?thesis unfolding look keys by simp
  next
    case (Some inner)
    have ne: "authorRecords a es \<noteq> []" and ok: "innerOk a es inner"
      using byAuthor_fold [OF assms, of a] unfolding Some by simp_all
    then obtain r where r: "r \<in> set es" "authorOf r = Some a" "validAuthor a"
      by (auto simp: authorRecords_def filter_empty_conv)
    have "\<not> skipAuthor (authorOf r)" using r by (simp add: skipAuthor_iff)
    then have own: "\<not> inherited a"
      using assms r by (auto simp: ownNames_def list_all_iff js_key_def)
    have "reviewersOfAuthor a es \<noteq> []"
      using ne by (simp add: reviewersOfAuthor_def firstSeen_def)
    then have "inner \<noteq> []"
      using ok by (auto simp: innerOk_def)
    then show ?thesis
      unfolding look keys using Some ne authorEntry_spec [OF Some ok r(3) own, of qs] by simp
  qed
qed

lemma pairDouble_bounds:
  assumes "v \<in> set (reviewersOfAuthor a es)"
  shows "0 \<le> pairDouble a es v \<and> pairDouble a es v \<le> 101
       \<and> \<bar>pairDouble a es v - pairPercent a es v\<bar> \<le> 300 / 2 ^ 53"
proof -
  have "pairRecords a v es \<noteq> []" using assms by (simp add: reviewersOfAuthor_set)
  then have t: "0 < length (pairRecords a v es)" by simp
  have c: "length (filter correctOf (pairRecords a v es)) \<le> length (pairRecords a v es)"
    by (rule length_filter_le)
  show ?thesis
    using jsPercent_bounds [OF t c] unfolding pairDouble_def pairPercent_def by linarith
qed

lemma authorAccuracy_near:
  assumes "authorRecords a es \<noteq> []" "length (reviewersOfAuthor a es) \<le> 1000000"
  shows "\<bar>authorAccuracy a es - authorMean a es\<bar> \<le> 1 / 20 + 1 / 10000000"
proof -
  let ?vs = "keyOrder (reviewersOfAuthor a es)"
  have ne: "?vs \<noteq> []"
    using assms(1) length_keyOrder [of "reviewersOfAuthor a es"]
    by (auto simp: reviewersOfAuthor_def firstSeen_def)
  have len: "length ?vs \<le> 1000000" using assms(2) by (simp add: length_keyOrder)
  have el: "\<forall>v\<in>set ?vs. 0 \<le> pairDouble a es v \<and> pairDouble a es v \<le> 101
              \<and> \<bar>pairDouble a es v - pairPercent a es v\<bar> \<le> 300 / 2 ^ 53"
  proof
    fix v assume "v \<in> set ?vs"
    then have "v \<in> set (reviewersOfAuthor a es)" by (simp add: set_keyOrder)
    then show "0 \<le> pairDouble a es v \<and> pairDouble a es v \<le> 101
              \<and> \<bar>pairDouble a es v - pairPercent a es v\<bar> \<le> 300 / 2 ^ 53"
      by (rule pairDouble_bounds)
  qed
  from mean_doubles_near [OF el len ne]
  show ?thesis
    by (simp add: authorAccuracy_def authorMean_def length_keyOrder sum_list_keyOrder)
qed

text \<open>
  C5 (amended). Let no counted record have an author or a reviewer named like an inherited
  property. Then the by-author group has an entry for an author exactly when some enriched
  record has that author and the author is neither absent, empty nor \<open>Unknown\<close>. The
  entry's accuracy is the mean, over the reviewers with such records, of each reviewer's
  \<open>correct / total * 100\<close> on the author's records, computed in doubles and printed with
  one decimal: a multiple of one tenth that, for up to a million reviewers, differs from
  the exact mean of the exact quotients by at most \<open>0.05 + 10^-7\<close>. Its question count is
  the number of catalog questions by that author, whatever the records are; its reviewer
  count is the number of those reviewers. Records without such an author belong to no
  author's records.
\<close>

theorem calculateByAuthor_rounded_mean:
  assumes "ownNames es"
  shows "map_of (calculateByAuthor qs es) a =
     (if authorRecords a es = [] then None
      else Some \<lparr>questionCount = authoredCount a qs,
                 author_stat.accuracy = authorAccuracy a es,
                 author_stat.reviewerCount = length (reviewersOfAuthor a es)\<rparr>)
   \<and> authorAccuracy a es * 10 \<in> \<int>
   \<and> (authorRecords a es \<noteq> [] \<and> length (reviewersOfAuthor a es) \<le> 1000000 \<longrightarrow>
        \<bar>authorAccuracy a es - authorMean a es\<bar> \<le> 1 / 20 + 1 / 10000000)
   \<and> map_of (calculateByAuthor qs es) ''Unknown'' = None
   \<and> map_of (calculateByAuthor qs es) [] = None
   \<and> (\<forall>r\<in>set es. authorOf r = None \<or> authorOf r = Some [] \<or> authorOf r = Some ''Unknown''
         \<longrightarrow> r \<notin> set (authorRecords a es))"
proof -
  have "authorRecords ''Unknown'' es = []" "authorRecords [] es = []"
    by (simp_all add: authorRecords_def validAuthor_def)
  moreover have "\<forall>r\<in>set es. authorOf r = None \<or> authorOf r = Some [] \<or> authorOf r = Some ''Unknown''
         \<longrightarrow> r \<notin> set (authorRecords a es)"
    by (auto simp: authorRecords_def validAuthor_def)
  moreover have "authorAccuracy a es * 10 \<in> \<int>"
    by (simp add: authorAccuracy_def toFixed1_tenths)
  ultimately show ?thesis
    using calculateByAuthor_lookup [OF assms, of qs] authorAccuracy_near [of a es] by simp
qed

lemma threeEnriched_author:
  "ownNames threeEnriched"
  "authorRecords ''A'' threeEnriched = threeEnriched"
  "reviewersOfAuthor ''A'' threeEnriched = [''ann'', ''bob'', ''cy'']"
  "authorMean ''A'' threeEnriched = 100 / 3"
  "authorAccuracy ''A'' threeEnriched = 333 / 10"
  "authoredCount ''A'' exampleCatalog = 2"
  by code_simp+

theorem calculateByAuthor_rounded_mean_witness:
  "ownNames threeEnriched
   \<and> map_of (calculateByAuthor exampleCatalog threeEnriched) ''A'' =
       Some \<lparr>questionCount = 2, author_stat.accuracy = 333 / 10, author_stat.reviewerCount = 3\<rparr>
   \<and> \<bar>333 / 10 - authorMean ''A'' threeEnriched\<bar> \<le> 1 / 20 + 1 / 10000000
   \<and> map_of (calculateByAuthor exampleCatalog threeEnriched) ''Unknown'' = None"
proof -
  have ne: "threeEnriched \<noteq> []" by (simp add: threeEnriched_def)
  show ?thesis
    using calculateByAuthor_rounded_mean [OF threeEnriched_author(1), of exampleCatalog "''A''"] ne
    by (simp add: threeEnriched_author)
qed

text \<open>
  One author, three reviewers with accuracies 100, 0 and 0 on the author's question: the
  mean is \<open>100/3\<close>, the headline accuracy is 33.3.
\<close>

theorem calculateByAuthor_rounded_mean_counterexample:
  "map_option author_stat.accuracy (map_of (calculateByAuthor exampleCatalog threeEnriched) ''A'')
     \<noteq> Some (authorMean ''A'' threeEnriched)"
proof -
  have ne: "threeEnriched \<noteq> []" by (simp add: threeEnriched_def)
  have "map_option author_stat.accuracy (map_of (calculateByAuthor exampleCatalog threeEnriched) ''A'')
          = Some (333 / 10)"
    using ne by (simp add: calculateByAuthor_lookup threeEnriched_author)
  then show ?thesis unfolding threeEnriched_author by (simp only:) simp
qed

end
